theory Spec2Isabelle
  imports Complex_Main
begin

section \<open>European option pricing: the embedding\<close>

text \<open>
  The engine of \<^verbatim>\<open>src/bindings.cpp\<close>: the option contract and the three pricers
  (Black-Scholes closed form, Monte Carlo, Cox-Ross-Rubinstein binomial tree).

  Numbers. A C++ \<^verbatim>\<open>double\<close> is read as a \<^typ>\<open>real\<close>: rounding, overflow to
  infinity and NaN are outside the model. The reading is exact arithmetic on the inputs
  for which every intermediate of the source is a finite, defined number; the source's
  \<^verbatim>\<open>std::sqrt\<close> and \<^verbatim>\<open>std::log\<close> give NaN on a negative argument while
  \<^const>\<open>sqrt\<close> and \<^const>\<open>ln\<close> are total, so statements about values carry the
  hypotheses that keep the arguments in range. The C++ \<^verbatim>\<open>int\<close> of the sample and
  step count is an \<^typ>\<open>int\<close> between \<open>INT_MIN\<close> and \<open>INT_MAX\<close>; the one place
  where the source leaves that range (\<^verbatim>\<open>N + 1\<close>) is a branch of the model.

  The sign of the simulation pricer's result turns on the values that are not numbers,
  so that pricer has a second model, over finite reals, the two infinities and NaN.
\<close>

subsection \<open>Option contract\<close>

datatype OptionType = Call | Put

record EuropeanOption =
  opt_S :: real
  opt_K :: real
  opt_T :: real
  opt_r :: real
  opt_sigma :: real
  opt_type :: OptionType

text \<open>The constructor copies its six arguments into the fields and checks nothing.\<close>

definition EuropeanOption_init ::
  "real \<Rightarrow> real \<Rightarrow> real \<Rightarrow> real \<Rightarrow> real \<Rightarrow> OptionType \<Rightarrow> EuropeanOption" where
  "EuropeanOption_init s k t r v ty =
     \<lparr>opt_S = s, opt_K = k, opt_T = t, opt_r = r, opt_sigma = v, opt_type = ty\<rparr>"

definition payoff :: "EuropeanOption \<Rightarrow> real \<Rightarrow> real" where
  "payoff opt ST =
     (if opt_type opt = Call then max (ST - opt_K opt) 0 else max (opt_K opt - ST) 0)"

subsection \<open>Library functions of \<^verbatim>\<open><cmath>\<close>\<close>

text \<open>
  \<^verbatim>\<open>std::erfc\<close> is the complementary error function \<open>1 - erf\<close>; the error function
  is given by its Maclaurin series
  \<open>erf x = 2/\<surd>\<pi> \<cdot> \<Sum>n. (-1)^n x^(2n+1) / (n! (2n+1))\<close>, which converges for every \<open>x\<close>.
  \<^verbatim>\<open>M_SQRT1_2\<close> is the constant \<open>1/\<surd>2\<close>.
\<close>

definition erf_term :: "real \<Rightarrow> nat \<Rightarrow> real" where
  "erf_term x n = (- 1) ^ n * x ^ (2 * n + 1) / (fact n * real (2 * n + 1))"

definition erf :: "real \<Rightarrow> real" where
  "erf x = 2 / sqrt pi * (\<Sum>n. erf_term x n)"

definition erfc :: "real \<Rightarrow> real" where
  "erfc x = 1 - erf x"

definition M_SQRT1_2 :: real where
  "M_SQRT1_2 = 1 / sqrt 2"

subsection \<open>Analytic pricer: \<^verbatim>\<open>BlackScholesModel\<close>\<close>

definition norm_cdf :: "real \<Rightarrow> real" where
  "norm_cdf x = 0.5 * erfc (- x * M_SQRT1_2)"

definition BlackScholesModel_price :: "EuropeanOption \<Rightarrow> real" where
  "BlackScholesModel_price opt =
     (let d1 = (ln (opt_S opt / opt_K opt)
                 + (opt_r opt + 0.5 * opt_sigma opt * opt_sigma opt) * opt_T opt)
               / (opt_sigma opt * sqrt (opt_T opt));
          d2 = d1 - opt_sigma opt * sqrt (opt_T opt)
      in if opt_type opt = Call
         then opt_S opt * norm_cdf d1 - opt_K opt * exp (- opt_r opt * opt_T opt) * norm_cdf d2
         else opt_K opt * exp (- opt_r opt * opt_T opt) * norm_cdf (- d2)
              - opt_S opt * norm_cdf (- d1))"

text \<open>
  The closed form in the specification's words: \<open>\<Phi>(x) = 0.5 \<cdot> erfc(-x/\<surd>2)\<close>,
  \<open>d1 = (ln(S/K) + (r + 0.5 \<sigma>\<^sup>2) T) / (\<sigma> \<surd>T)\<close>, \<open>d2 = d1 - \<sigma> \<surd>T\<close>.
\<close>

definition Phi :: "real \<Rightarrow> real" where
  "Phi x = 0.5 * erfc (- x / sqrt 2)"

definition spec_d1 :: "real \<Rightarrow> real \<Rightarrow> real \<Rightarrow> real \<Rightarrow> real \<Rightarrow> real" where
  "spec_d1 S K T r sigma = (ln (S / K) + (r + 0.5 * sigma\<^sup>2) * T) / (sigma * sqrt T)"

definition spec_d2 :: "real \<Rightarrow> real \<Rightarrow> real \<Rightarrow> real \<Rightarrow> real \<Rightarrow> real" where
  "spec_d2 S K T r sigma = spec_d1 S K T r sigma - sigma * sqrt T"

definition spec_call_value :: "real \<Rightarrow> real \<Rightarrow> real \<Rightarrow> real \<Rightarrow> real \<Rightarrow> real" where
  "spec_call_value S K T r sigma =
     S * Phi (spec_d1 S K T r sigma) - K * exp (- (r * T)) * Phi (spec_d2 S K T r sigma)"

definition spec_put_value :: "real \<Rightarrow> real \<Rightarrow> real \<Rightarrow> real \<Rightarrow> real \<Rightarrow> real" where
  "spec_put_value S K T r sigma =
     K * exp (- (r * T)) * Phi (- spec_d2 S K T r sigma) - S * Phi (- spec_d1 S K T r sigma)"

text \<open>
  Devices of the proofs about the error function: the coefficients of its power series
  and of the series of its derivative, and the standard normal density.
\<close>

definition erf_coeff :: "nat \<Rightarrow> real" where
  "erf_coeff m =
     (if even m then 0 else (- 1) ^ ((m - 1) div 2) / (fact ((m - 1) div 2) * real m))"

definition gauss_coeff :: "nat \<Rightarrow> real" where
  "gauss_coeff m = (if even m then (- 1) ^ (m div 2) / fact (m div 2) else 0)"

definition phi :: "real \<Rightarrow> real" where
  "phi x = exp (- (x\<^sup>2) / 2) / sqrt (2 * pi)"

text \<open>
  Devices of the bound \<open>erf x \<le> 1\<close>: the area under \<open>exp(-t\<^sup>2)\<close> from \<open>0\<close> to \<open>x\<close>, its
  left Riemann sum on \<open>m\<close> equal parts, and the left Riemann sum on \<open>m\<close> parts of
  \<open>exp(-x\<^sup>2 (1 + t\<^sup>2)) / (1 + t\<^sup>2)\<close> over \<open>t\<close> from \<open>0\<close> to \<open>1\<close>.
\<close>

definition gauss_area :: "real \<Rightarrow> real" where
  "gauss_area x = sqrt pi / 2 * erf x"

definition left_sum :: "nat \<Rightarrow> real \<Rightarrow> real" where
  "left_sum m x = (\<Sum>k<m. x / real m * exp (- ((x * real k / real m)\<^sup>2)))"

definition damped :: "nat \<Rightarrow> real \<Rightarrow> real" where
  "damped m x =
     (\<Sum>k<m. exp (- (x\<^sup>2) * (1 + (real k / real m)\<^sup>2)) / (1 + (real k / real m)\<^sup>2)) / real m"

subsection \<open>Simulation pricer: \<^verbatim>\<open>MonteCarloModel\<close>\<close>

record MonteCarloModel =
  mc_N :: int

definition MonteCarloModel_init :: "int \<Rightarrow> MonteCarloModel" where
  "MonteCarloModel_init num_simulations = \<lparr>mc_N = num_simulations\<rparr>"

text \<open>
  The generator is created inside \<^verbatim>\<open>price\<close> and seeded from the entropy source, so
  the draws are an input of the model: \<open>draw i\<close> is the value that the \<open>i\<close>-th call
  \<^verbatim>\<open>dist(gen)\<close> returns, counted from 0. The loop
  \<^verbatim>\<open>for (int i = 0; i < N; ++i)\<close> carries \<^verbatim>\<open>payoff_sum\<close>.
\<close>

function mc_loop :: "EuropeanOption \<Rightarrow> (nat \<Rightarrow> real) \<Rightarrow> int \<Rightarrow> int \<Rightarrow> real \<Rightarrow> real" where
  "mc_loop opt draw N i payoff_sum =
     (if i < N then
        (let Z = draw (nat i);
             ST = opt_S opt * exp ((opt_r opt - 0.5 * opt_sigma opt * opt_sigma opt) * opt_T opt
                                   + opt_sigma opt * sqrt (opt_T opt) * Z)
         in mc_loop opt draw N (i + 1) (payoff_sum + payoff opt ST))
      else payoff_sum)"
  by pat_completeness auto
termination
  by (relation "measure (\<lambda>(opt, draw, N, i, payoff_sum). nat (N - i))") auto

definition MonteCarloModel_price ::
  "MonteCarloModel \<Rightarrow> (nat \<Rightarrow> real) \<Rightarrow> EuropeanOption \<Rightarrow> real" where
  "MonteCarloModel_price m draw opt =
     exp (- opt_r opt * opt_T opt) * (mc_loop opt draw (mc_N m) 0 0 / real_of_int (mc_N m))"

text \<open>
  The estimator in the specification's words: the discounted average over the draws of
  the payoff of \<open>S \<cdot> exp((r - 0.5 \<sigma>\<^sup>2) T + \<sigma> \<surd>T Z)\<close>.
\<close>

definition spec_payoff :: "OptionType \<Rightarrow> real \<Rightarrow> real \<Rightarrow> real" where
  "spec_payoff ty K x = (case ty of Call \<Rightarrow> max (x - K) 0 | Put \<Rightarrow> max (K - x) 0)"

definition spec_terminal_price :: "EuropeanOption \<Rightarrow> real \<Rightarrow> real" where
  "spec_terminal_price opt Z =
     opt_S opt * exp ((opt_r opt - 0.5 * (opt_sigma opt)\<^sup>2) * opt_T opt
                      + opt_sigma opt * sqrt (opt_T opt) * Z)"

definition spec_mc_estimate :: "EuropeanOption \<Rightarrow> (nat \<Rightarrow> real) \<Rightarrow> nat \<Rightarrow> real" where
  "spec_mc_estimate opt draw n =
     exp (- (opt_r opt * opt_T opt))
     * ((\<Sum>i<n. spec_payoff (opt_type opt) (opt_K opt) (spec_terminal_price opt (draw i)))
        / real n)"

subsection \<open>Simulation pricer, with the values that are not numbers\<close>

text \<open>
  A \<^verbatim>\<open>double\<close> as a finite real of absolute value at most \<open>DBL_MAX\<close>, \<open>+Inf\<close>,
  \<open>-Inf\<close> or NaN. An operation returns its exact real result when that is in range and
  an infinity when it overflows; on the special operands it returns what IEEE 754
  prescribes (\<open>Inf - Inf\<close>, \<open>Inf \<cdot> 0\<close>, \<open>0/0\<close>, \<open>Inf/Inf\<close> and the square root of a
  negative number are NaN, and NaN propagates). The rounding of finite results and the
  sign of zero are not modelled: a zero divisor counts as \<open>+0\<close>.
\<close>

definition DBL_MAX :: real where
  "DBL_MAX = 2 ^ 1024 - 2 ^ 971"

datatype double = Fin real | PInf | NInf | NaN

definition to_double :: "real \<Rightarrow> double" where
  "to_double x = (if DBL_MAX < x then PInf else if x < - DBL_MAX then NInf else Fin x)"

fun d_neg :: "double \<Rightarrow> double" where
  "d_neg (Fin x) = Fin (- x)"
| "d_neg PInf = NInf"
| "d_neg NInf = PInf"
| "d_neg NaN = NaN"

fun d_add :: "double \<Rightarrow> double \<Rightarrow> double" where
  "d_add NaN b = NaN"
| "d_add a NaN = NaN"
| "d_add (Fin x) (Fin y) = to_double (x + y)"
| "d_add PInf NInf = NaN"
| "d_add NInf PInf = NaN"
| "d_add PInf b = PInf"
| "d_add a PInf = PInf"
| "d_add NInf b = NInf"
| "d_add a NInf = NInf"

definition d_sub :: "double \<Rightarrow> double \<Rightarrow> double" where
  "d_sub a b = d_add a (d_neg b)"

fun d_mul :: "double \<Rightarrow> double \<Rightarrow> double" where
  "d_mul NaN b = NaN"
| "d_mul a NaN = NaN"
| "d_mul (Fin x) (Fin y) = to_double (x * y)"
| "d_mul (Fin x) PInf = (if x = 0 then NaN else if 0 < x then PInf else NInf)"
| "d_mul (Fin x) NInf = (if x = 0 then NaN else if 0 < x then NInf else PInf)"
| "d_mul PInf (Fin y) = (if y = 0 then NaN else if 0 < y then PInf else NInf)"
| "d_mul NInf (Fin y) = (if y = 0 then NaN else if 0 < y then NInf else PInf)"
| "d_mul PInf PInf = PInf"
| "d_mul PInf NInf = NInf"
| "d_mul NInf PInf = NInf"
| "d_mul NInf NInf = PInf"

fun d_div :: "double \<Rightarrow> double \<Rightarrow> double" where
  "d_div NaN b = NaN"
| "d_div a NaN = NaN"
| "d_div (Fin x) (Fin y) =
     (if y = 0 then (if x = 0 then NaN else if 0 < x then PInf else NInf)
      else to_double (x / y))"
| "d_div (Fin x) PInf = Fin 0"
| "d_div (Fin x) NInf = Fin 0"
| "d_div PInf (Fin y) = (if 0 \<le> y then PInf else NInf)"
| "d_div NInf (Fin y) = (if 0 \<le> y then NInf else PInf)"
| "d_div PInf b = NaN"
| "d_div NInf b = NaN"

fun d_exp :: "double \<Rightarrow> double" where
  "d_exp (Fin x) = to_double (exp x)"
| "d_exp PInf = PInf"
| "d_exp NInf = Fin 0"
| "d_exp NaN = NaN"

fun d_sqrt :: "double \<Rightarrow> double" where
  "d_sqrt (Fin x) = (if x < 0 then NaN else Fin (sqrt x))"
| "d_sqrt PInf = PInf"
| "d_sqrt NInf = NaN"
| "d_sqrt NaN = NaN"

text \<open>
  \<^verbatim>\<open>a < b\<close> is false when an operand is NaN; \<^verbatim>\<open>std::max(a, b)\<close> is
  \<^verbatim>\<open>(a < b) ? b : a\<close>.
\<close>

fun d_less :: "double \<Rightarrow> double \<Rightarrow> bool" where
  "d_less NaN b = False"
| "d_less a NaN = False"
| "d_less (Fin x) (Fin y) = (x < y)"
| "d_less (Fin x) PInf = True"
| "d_less (Fin x) NInf = False"
| "d_less PInf b = False"
| "d_less NInf NInf = False"
| "d_less NInf b = True"

definition d_max :: "double \<Rightarrow> double \<Rightarrow> double" where
  "d_max a b = (if d_less a b then b else a)"

text \<open>
  The contract with its five \<^verbatim>\<open>double\<close> fields, \<^verbatim>\<open>payoff\<close>, the loop of
  \<^verbatim>\<open>MonteCarloModel::price\<close> and its result, operation by operation as in the source;
  \<open>draw i\<close> is the \<open>i\<close>-th value of \<^verbatim>\<open>dist(gen)\<close>.
\<close>

record EuropeanOption_ieee =
  ieee_S :: double
  ieee_K :: double
  ieee_T :: double
  ieee_r :: double
  ieee_sigma :: double
  ieee_type :: OptionType

definition payoff_ieee :: "EuropeanOption_ieee \<Rightarrow> double \<Rightarrow> double" where
  "payoff_ieee opt ST =
     (if ieee_type opt = Call then d_max (d_sub ST (ieee_K opt)) (Fin 0)
      else d_max (d_sub (ieee_K opt) ST) (Fin 0))"

function mc_loop_ieee ::
  "EuropeanOption_ieee \<Rightarrow> (nat \<Rightarrow> double) \<Rightarrow> int \<Rightarrow> int \<Rightarrow> double \<Rightarrow> double" where
  "mc_loop_ieee opt draw N i payoff_sum =
     (if i < N then
        (let Z = draw (nat i);
             ST = d_mul (ieee_S opt)
                    (d_exp (d_add
                       (d_mul (d_sub (ieee_r opt)
                                 (d_mul (d_mul (Fin 0.5) (ieee_sigma opt)) (ieee_sigma opt)))
                              (ieee_T opt))
                       (d_mul (d_mul (ieee_sigma opt) (d_sqrt (ieee_T opt))) Z)))
         in mc_loop_ieee opt draw N (i + 1) (d_add payoff_sum (payoff_ieee opt ST)))
      else payoff_sum)"
  by pat_completeness auto
termination
  by (relation "measure (\<lambda>(opt, draw, N, i, payoff_sum). nat (N - i))") auto

definition MonteCarloModel_price_ieee ::
  "MonteCarloModel \<Rightarrow> (nat \<Rightarrow> double) \<Rightarrow> EuropeanOption_ieee \<Rightarrow> double" where
  "MonteCarloModel_price_ieee m draw opt =
     d_mul (d_exp (d_mul (d_neg (ieee_r opt)) (ieee_T opt)))
           (d_div (mc_loop_ieee opt draw (mc_N m) 0 (Fin 0)) (Fin (real_of_int (mc_N m))))"

text \<open>\<open>a \<ge> 0\<close> on these values: a finite real that is not negative, or \<open>+Inf\<close>.\<close>

definition nonneg :: "double \<Rightarrow> bool" where
  "nonneg a = (case a of Fin x \<Rightarrow> 0 \<le> x | PInf \<Rightarrow> True | NInf \<Rightarrow> False | NaN \<Rightarrow> False)"

definition nan_or_nonneg :: "double \<Rightarrow> bool" where
  "nan_or_nonneg a = (a = NaN \<or> nonneg a)"

subsection \<open>Lattice pricer: \<^verbatim>\<open>BinomialModel\<close>\<close>

record BinomialModel =
  bm_N :: int

definition BinomialModel_init :: "int \<Rightarrow> BinomialModel" where
  "BinomialModel_init steps = \<lparr>bm_N = steps\<rparr>"

definition INT_MAX :: int where
  "INT_MAX = 2147483647"

text \<open>
  The ways \<^verbatim>\<open>BinomialModel::price\<close> leaves without a value. \<open>SignedOverflow\<close>:
  \<^verbatim>\<open>N + 1\<close> is computed in \<^verbatim>\<open>int\<close> and exceeds \<open>INT_MAX\<close> (undefined
  behaviour). \<open>LengthError\<close>: \<^verbatim>\<open>N + 1\<close> is negative, its conversion to the vector's
  unsigned size type exceeds the vector's maximal size and the constructor throws.
  \<open>OutOfRange\<close>: \<^verbatim>\<open>option_values[0]\<close> is read from an empty vector (undefined
  behaviour).
\<close>

datatype failure = SignedOverflow | LengthError | OutOfRange

text \<open>
  \<^verbatim>\<open>for (int i = 0; i <= N; ++i)\<close>: the terminal payoffs. \<^verbatim>\<open>std::pow\<close> is
  called with a positive base (\<open>u\<close> is an exponential, \<open>d\<close> its inverse) and the integer
  exponents \<open>N - i\<close> and \<open>i\<close>, which are not negative inside the loop.
\<close>

function terminal_loop ::
  "EuropeanOption \<Rightarrow> real \<Rightarrow> real \<Rightarrow> int \<Rightarrow> int \<Rightarrow> real list \<Rightarrow> real list" where
  "terminal_loop opt u d N i option_values =
     (if i \<le> N then
        (let ST = opt_S opt * u ^ nat (N - i) * d ^ nat i
         in terminal_loop opt u d N (i + 1) (option_values[nat i := payoff opt ST]))
      else option_values)"
  by pat_completeness auto
termination
  by (relation "measure (\<lambda>(opt, u, d, N, i, option_values). nat (N + 1 - i))") auto

text \<open>\<^verbatim>\<open>for (int i = 0; i <= step; ++i)\<close>: one backward step, in place.\<close>

function inner_loop :: "real \<Rightarrow> real \<Rightarrow> int \<Rightarrow> int \<Rightarrow> real list \<Rightarrow> real list" where
  "inner_loop discount p step i option_values =
     (if i \<le> step then
        inner_loop discount p step (i + 1)
          (option_values[nat i :=
             discount * (p * option_values ! nat i + (1 - p) * option_values ! nat (i + 1))])
      else option_values)"
  by pat_completeness auto
termination
  by (relation "measure (\<lambda>(discount, p, step, i, option_values). nat (step + 1 - i))") auto

text \<open>\<^verbatim>\<open>for (int step = N - 1; step >= 0; --step)\<close>: the backward induction.\<close>

function backward_loop :: "real \<Rightarrow> real \<Rightarrow> int \<Rightarrow> real list \<Rightarrow> real list" where
  "backward_loop discount p step option_values =
     (if step \<ge> 0 then
        backward_loop discount p (step - 1) (inner_loop discount p step 0 option_values)
      else option_values)"
  by pat_completeness auto
termination
  by (relation "measure (\<lambda>(discount, p, step, option_values). nat (step + 1))") auto

definition BinomialModel_price :: "BinomialModel \<Rightarrow> EuropeanOption \<Rightarrow> failure + real" where
  "BinomialModel_price m opt =
     (let N = bm_N m;
          dt = opt_T opt / real_of_int N;
          u = exp (opt_sigma opt * sqrt dt);
          d = 1 / u;
          p = (exp (opt_r opt * dt) - d) / (u - d);
          discount = exp (- opt_r opt * dt)
      in if N = INT_MAX then Inl SignedOverflow
         else if N + 1 < 0 then Inl LengthError
         else
           (let option_values = replicate (nat (N + 1)) 0;
                option_values = terminal_loop opt u d N 0 option_values;
                option_values = backward_loop discount p (N - 1) option_values
            in if option_values = [] then Inl OutOfRange else Inr (option_values ! 0)))"

text \<open>
  The Cox-Ross-Rubinstein recursion in the specification's words, for \<open>n\<close> steps:
  the parameters, the terminal values \<open>i = 0..n\<close>, the replacement of \<open>values[i]\<close> for
  \<open>i = 0..step\<close>, the steps \<open>n-1\<close> down to \<open>0\<close>, and \<open>values[0]\<close>.
\<close>

definition crr_dt :: "EuropeanOption \<Rightarrow> nat \<Rightarrow> real" where
  "crr_dt opt n = opt_T opt / real n"

definition crr_u :: "EuropeanOption \<Rightarrow> nat \<Rightarrow> real" where
  "crr_u opt n = exp (opt_sigma opt * sqrt (crr_dt opt n))"

definition crr_d :: "EuropeanOption \<Rightarrow> nat \<Rightarrow> real" where
  "crr_d opt n = 1 / crr_u opt n"

definition crr_p :: "EuropeanOption \<Rightarrow> nat \<Rightarrow> real" where
  "crr_p opt n = (exp (opt_r opt * crr_dt opt n) - crr_d opt n) / (crr_u opt n - crr_d opt n)"

definition crr_discount :: "EuropeanOption \<Rightarrow> nat \<Rightarrow> real" where
  "crr_discount opt n = exp (- (opt_r opt * crr_dt opt n))"

definition crr_terminal_value :: "EuropeanOption \<Rightarrow> nat \<Rightarrow> nat \<Rightarrow> real" where
  "crr_terminal_value opt n i =
     spec_payoff (opt_type opt) (opt_K opt) (opt_S opt * crr_u opt n ^ (n - i) * crr_d opt n ^ i)"

definition crr_terminal :: "EuropeanOption \<Rightarrow> nat \<Rightarrow> real list" where
  "crr_terminal opt n = map (crr_terminal_value opt n) [0..<Suc n]"

definition crr_replace :: "real \<Rightarrow> real \<Rightarrow> real list \<Rightarrow> nat \<Rightarrow> real list" where
  "crr_replace discount p vs i = vs[i := discount * (p * vs ! i + (1 - p) * vs ! (i + 1))]"

definition crr_step :: "real \<Rightarrow> real \<Rightarrow> real list \<Rightarrow> nat \<Rightarrow> real list" where
  "crr_step discount p vs step = foldl (crr_replace discount p) vs [0..<Suc step]"

definition crr_price :: "EuropeanOption \<Rightarrow> nat \<Rightarrow> real" where
  "crr_price opt n =
     foldl (crr_step (crr_discount opt n) (crr_p opt n)) (crr_terminal opt n) (rev [0..<n]) ! 0"

text \<open>
  The value of a lattice node as a function: \<open>lattice_value term discount p k i\<close> is the
  value of node \<open>i\<close> after \<open>k\<close> backward steps from the terminal values \<open>term\<close>, each step
  combining the node with its lower neighbour of the level before.
\<close>

fun lattice_value :: "(nat \<Rightarrow> real) \<Rightarrow> real \<Rightarrow> real \<Rightarrow> nat \<Rightarrow> nat \<Rightarrow> real" where
  "lattice_value term discount p 0 i = term i"
| "lattice_value term discount p (Suc k) i =
     discount * (p * lattice_value term discount p k i
                 + (1 - p) * lattice_value term discount p k (i + 1))"

text \<open>
  The same value as a function of the spot price of the node: \<open>k\<close> backward steps from
  the payoff \<open>f\<close>, an up move multiplying the spot by \<open>u\<close> and a down move by \<open>d\<close>;
  and convexity of a function on the reals.
\<close>

fun spot_value :: "(real \<Rightarrow> real) \<Rightarrow> real \<Rightarrow> real \<Rightarrow> real \<Rightarrow> real \<Rightarrow> nat \<Rightarrow> real \<Rightarrow> real" where
  "spot_value f discount p u d 0 s = f s"
| "spot_value f discount p u d (Suc k) s =
     discount * (p * spot_value f discount p u d k (s * u)
                 + (1 - p) * spot_value f discount p u d k (s * d))"

definition convex_fn :: "(real \<Rightarrow> real) \<Rightarrow> bool" where
  "convex_fn f \<longleftrightarrow>
     (\<forall>x y t. 0 \<le> t \<longrightarrow> t \<le> 1 \<longrightarrow> f (t * x + (1 - t) * y) \<le> t * f x + (1 - t) * f y)"

section \<open>Payoff\<close>

lemma payoff_spec_payoff: "payoff opt x = spec_payoff (opt_type opt) (opt_K opt) x"
  by (cases "opt_type opt") (simp_all add: payoff_def spec_payoff_def)

lemma payoff_nonneg: "0 \<le> payoff opt x"
  by (simp add: payoff_def)


section \<open>Analytic pricer\<close>

lemma norm_cdf_Phi: "norm_cdf x = Phi x"
  by (simp add: norm_cdf_def Phi_def M_SQRT1_2_def)

text \<open>
  C1. For a contract with \<open>S, K, T, \<sigma> > 0\<close> the analytic pricer returns the closed-form
  value: \<open>S \<Phi>(d1) - K e\<^sup>-\<^sup>r\<^sup>T \<Phi>(d2)\<close> for a Call and \<open>K e\<^sup>-\<^sup>r\<^sup>T \<Phi>(-d2) - S \<Phi>(-d1)\<close>
  for a Put, with \<open>d1\<close>, \<open>d2\<close> and \<open>\<Phi>(x) = 0.5 erfc(-x/\<surd>2)\<close> as the specification
  writes them.
\<close>

theorem BlackScholesModel_price_closed_form:
  assumes "0 < opt_S opt" and "0 < opt_K opt" and "0 < opt_T opt" and "0 < opt_sigma opt"
  shows "BlackScholesModel_price opt =
    (case opt_type opt of
       Call \<Rightarrow> spec_call_value (opt_S opt) (opt_K opt) (opt_T opt) (opt_r opt) (opt_sigma opt)
     | Put \<Rightarrow> spec_put_value (opt_S opt) (opt_K opt) (opt_T opt) (opt_r opt) (opt_sigma opt))"
  by (cases "opt_type opt")
     (simp_all add: BlackScholesModel_price_def Let_def norm_cdf_Phi spec_call_value_def
        spec_put_value_def spec_d1_def spec_d2_def power2_eq_square algebra_simps)

theorem BlackScholesModel_price_closed_form_witness:
  "BlackScholesModel_price (EuropeanOption_init 100 100 1 (1/20) (1/5) Call)
     = spec_call_value 100 100 1 (1/20) (1/5)"
  using BlackScholesModel_price_closed_form
    [of "EuropeanOption_init 100 100 1 (1/20) (1/5) Call"]
  by (simp add: EuropeanOption_init_def)

text \<open>The series of the error function converges everywhere, and the function is odd.\<close>

lemma erf_term_bound: "norm (erf_term x n) \<le> \<bar>x\<bar> * (inverse (fact n) * (x\<^sup>2) ^ n)"
proof -
  have "norm (erf_term x n) = \<bar>x\<bar> * (x\<^sup>2) ^ n / (fact n * real (2 * n + 1))"
    by (simp add: erf_term_def abs_mult power_abs power_mult power_even_abs abs_divide)
  also have "\<dots> \<le> \<bar>x\<bar> * (x\<^sup>2) ^ n / (fact n * 1)"
    by (intro divide_left_mono mult_left_mono mult_nonneg_nonneg mult_pos_pos) simp_all
  finally show ?thesis
    by (simp add: field_simps)
qed

lemma summable_erf_term: "summable (erf_term x)"
proof (rule summable_comparison_test')
  show "summable (\<lambda>n. \<bar>x\<bar> * (inverse (fact n) * (x\<^sup>2) ^ n))"
    by (intro summable_mult summable_exp)
  show "norm (erf_term x n) \<le> \<bar>x\<bar> * (inverse (fact n) * (x\<^sup>2) ^ n)" if "n \<ge> 0" for n
    by (rule erf_term_bound)
qed

lemma erf_term_minus: "erf_term (- x) n = - erf_term x n"
  by (simp add: erf_term_def)

lemma erf_minus: "erf (- x) = - erf x"
  by (simp add: erf_def erf_term_minus suminf_minus[OF summable_erf_term])

lemma erfc_minus: "erfc (- x) = 2 - erfc x"
  by (simp add: erfc_def erf_minus)

lemma norm_cdf_minus: "norm_cdf (- x) = 1 - norm_cdf x"
  using erfc_minus[of "- x * M_SQRT1_2"] by (simp add: norm_cdf_def)


text \<open>
  C4. Put-call parity of the analytic pricer: for a contract with \<open>S, K, T, \<sigma> > 0\<close>, the
  Call price minus the Put price on the same \<open>(S, K, T, r, \<sigma>)\<close> is \<open>S - K e\<^sup>-\<^sup>r\<^sup>T\<close>.
  In the arithmetic of the reals the identity is exact.
\<close>

theorem BlackScholesModel_put_call_parity:
  assumes "0 < opt_S opt" and "0 < opt_K opt" and "0 < opt_T opt" and "0 < opt_sigma opt"
  shows "BlackScholesModel_price (opt\<lparr>opt_type := Call\<rparr>)
           - BlackScholesModel_price (opt\<lparr>opt_type := Put\<rparr>)
         = opt_S opt - opt_K opt * exp (- (opt_r opt * opt_T opt))"
  by (simp add: BlackScholesModel_price_def Let_def norm_cdf_minus algebra_simps)

theorem BlackScholesModel_put_call_parity_witness:
  "BlackScholesModel_price (EuropeanOption_init 100 100 1 (1/20) (1/5) Call)
     - BlackScholesModel_price (EuropeanOption_init 100 100 1 (1/20) (1/5) Put)
   = 100 - 100 * exp (- (1/20))"
  using BlackScholesModel_put_call_parity[of "EuropeanOption_init 100 100 1 (1/20) (1/5) Call"]
  by (simp add: EuropeanOption_init_def)

text \<open>
  The derivative of the error function is \<open>2/\<surd>\<pi> \<cdot> exp(-x\<^sup>2)\<close>, by termwise differentiation of
  its series; the derivative of \<^const>\<open>norm_cdf\<close> is the normal density.
\<close>

lemma diffs_erf_coeff: "diffs erf_coeff = gauss_coeff"
proof
  fix n
  show "diffs erf_coeff n = gauss_coeff n"
    by (cases "even n") (simp_all add: diffs_def erf_coeff_def gauss_coeff_def)
qed

lemma erf_coeff_sums: "(\<lambda>m. erf_coeff m * x ^ m) sums (\<Sum>n. erf_term x n)"
proof -
  have "(\<lambda>m. if even m then 0 else erf_term x ((m - 1) div 2)) sums (\<Sum>n. erf_term x n)"
    by (rule sums_if') (rule summable_sums[OF summable_erf_term])
  moreover have "(if even m then 0 else erf_term x ((m - 1) div 2)) = erf_coeff m * x ^ m" for m
  proof (cases "even m")
    case True
    then show ?thesis by (simp add: erf_coeff_def)
  next
    case False
    then obtain k where m: "m = 2 * k + 1"
      by (auto elim: oddE)
    show ?thesis
      by (simp add: m erf_coeff_def erf_term_def)
  qed
  ultimately show ?thesis by simp
qed

lemma gauss_coeff_sums: "(\<lambda>m. gauss_coeff m * x ^ m) sums exp (- (x\<^sup>2))"
proof -
  have z: "(\<lambda>n::nat. 0::real) sums 0" by simp
  have e: "(\<lambda>k. (- (x\<^sup>2)) ^ k /\<^sub>R fact k) sums exp (- (x\<^sup>2))"
    by (rule exp_converges)
  have "(\<lambda>n. if even n then (- (x\<^sup>2)) ^ (n div 2) /\<^sub>R fact (n div 2) else 0)
          sums (0 + exp (- (x\<^sup>2)))"
    by (rule sums_if[OF z e])
  moreover have "(if even m then (- (x\<^sup>2)) ^ (m div 2) /\<^sub>R fact (m div 2) else 0)
      = gauss_coeff m * x ^ m" for m
  proof (cases "even m")
    case True
    then obtain k where m: "m = 2 * k"
      by (auto elim: evenE)
    have "(- (x\<^sup>2)) ^ k = (- 1) ^ k * x ^ (2 * k)"
      by (simp add: power_minus[of "x\<^sup>2"] power_mult)
    then show ?thesis
      by (simp add: m gauss_coeff_def divide_inverse mult.commute)
  next
    case False
    then show ?thesis by (simp add: gauss_coeff_def)
  qed
  ultimately show ?thesis by simp
qed

lemma DERIV_erf: "DERIV erf x :> 2 / sqrt pi * exp (- (x\<^sup>2))"
proof -
  have s: "summable (\<lambda>m. erf_coeff m * y ^ m)" for y
    using erf_coeff_sums[of y] by (rule sums_summable)
  have "((\<lambda>x. \<Sum>m. erf_coeff m * x ^ m) has_field_derivative (\<Sum>m. diffs erf_coeff m * x ^ m)) (at x)"
    by (rule termdiffs_strong_converges_everywhere) (rule s)
  moreover have "(\<Sum>m. diffs erf_coeff m * x ^ m) = exp (- (x\<^sup>2))"
    unfolding diffs_erf_coeff by (rule sums_unique[OF gauss_coeff_sums, symmetric])
  moreover have "(\<lambda>x. \<Sum>m. erf_coeff m * x ^ m) = (\<lambda>x. \<Sum>n. erf_term x n)"
    by (rule ext) (rule sums_unique[OF erf_coeff_sums, symmetric])
  ultimately have "((\<lambda>x. \<Sum>n. erf_term x n) has_field_derivative exp (- (x\<^sup>2))) (at x)"
    by simp
  from DERIV_cmult[OF this, of "2 / sqrt pi"] show ?thesis
    unfolding erf_def[abs_def] .
qed

lemma DERIV_erf_chain [derivative_intros]:
  assumes "(f has_field_derivative D) (at x)"
  shows "((\<lambda>x. erf (f x)) has_field_derivative (2 / sqrt pi * exp (- ((f x)\<^sup>2)) * D)) (at x)"
  using DERIV_chain2[OF DERIV_erf assms] by simp

lemma phi_pos: "0 < phi x"
  by (simp add: phi_def)

lemma DERIV_norm_cdf: "DERIV norm_cdf x :> phi x"
proof -
  have "sqrt 2 * exp (- (x\<^sup>2 / 2)) / (2 * sqrt pi) = exp (- (x\<^sup>2 / 2)) / (sqrt 2 * sqrt pi)"
  proof -
    have "sqrt 2 * sqrt 2 = (2::real)" by simp
    then show ?thesis by (simp add: field_simps)
  qed
  then have "((\<lambda>x. 0.5 * (1 - erf (- x * M_SQRT1_2))) has_field_derivative phi x) (at x)"
    by (auto intro!: derivative_eq_intros
        simp: phi_def M_SQRT1_2_def power_mult_distrib power_divide real_sqrt_mult)
  then show ?thesis
    by (simp add: norm_cdf_def[abs_def] erfc_def)
qed

lemma DERIV_norm_cdf_chain [derivative_intros]:
  assumes "(f has_field_derivative D) (at x)"
  shows "((\<lambda>x. norm_cdf (f x)) has_field_derivative (phi (f x) * D)) (at x)"
  using DERIV_chain2[OF DERIV_norm_cdf assms] by simp

text \<open>
  The price of a Call as a function of the volatility has the derivative \<open>S \<phi>(d1) \<surd>T\<close>,
  which is not negative; the Put differs from the Call by a term free of the volatility.
\<close>

lemma vega_identity:
  fixes S K T r v :: real
  assumes "0 < S" and "0 < K" and "0 < T" and "0 < v"
  defines "d1 \<equiv> (ln (S / K) + (r + 0.5 * v * v) * T) / (v * sqrt T)"
  shows "K * exp (- r * T) * phi (d1 - v * sqrt T) = S * phi d1"
proof -
  have nz: "v * sqrt T \<noteq> 0"
    using assms by simp
  have a: "d1 * (v * sqrt T) = ln (S / K) + (r + 0.5 * v * v) * T"
    using nz by (simp add: d1_def)
  have sq: "(v * sqrt T)\<^sup>2 = v * v * T"
    using assms by (simp add: power_mult_distrib power2_eq_square)
  have "(d1 - v * sqrt T)\<^sup>2 = d1\<^sup>2 - 2 * (d1 * (v * sqrt T)) + (v * sqrt T)\<^sup>2"
    by (simp add: power2_diff)
  then have "- ((d1 - v * sqrt T)\<^sup>2) / 2 = - (d1\<^sup>2) / 2 + (ln (S / K) + r * T)"
    unfolding a sq by (simp add: algebra_simps)
  then have "exp (- ((d1 - v * sqrt T)\<^sup>2) / 2) = exp (- (d1\<^sup>2) / 2) * exp (ln (S / K) + r * T)"
    by (simp only: exp_add)
  then have "phi (d1 - v * sqrt T) = phi d1 * exp (ln (S / K) + r * T)"
    by (simp add: phi_def)
  also have "exp (ln (S / K) + r * T) = S / K * exp (r * T)"
    using assms by (simp add: exp_add)
  finally have "K * exp (- r * T) * phi (d1 - v * sqrt T)
      = S * phi d1 * (exp (- r * T) * exp (r * T))"
    using assms by simp
  also have "exp (- r * T) * exp (r * T) = 1"
    by (simp add: exp_add[symmetric])
  finally show ?thesis by simp
qed

lemma DERIV_call_sigma:
  fixes S K T r v :: real
  assumes "0 < S" and "0 < K" and "0 < T" and "0 < v"
  shows "\<exists>y. ((\<lambda>v. S * norm_cdf ((ln (S / K) + (r + 0.5 * v * v) * T) / (v * sqrt T))
                 - K * exp (- r * T)
                   * norm_cdf ((ln (S / K) + (r + 0.5 * v * v) * T) / (v * sqrt T) - v * sqrt T))
           has_field_derivative y) (at v) \<and> 0 \<le> y"
proof -
  let ?d1 = "\<lambda>v. (ln (S / K) + (r + 0.5 * v * v) * T) / (v * sqrt T)"
  define D1 where "D1 = ((0.5 * v + 0.5 * v) * T * (v * sqrt T) - (ln (S / K) + (r + 0.5 * v * v) * T) * sqrt T)
                         / ((v * sqrt T) * (v * sqrt T))"
  have nz: "v * sqrt T \<noteq> 0"
    using assms by simp
  have d: "(?d1 has_field_derivative D1) (at v)"
    unfolding D1_def using nz
    by (auto intro!: derivative_eq_intros)
  have w: "((\<lambda>v. v * sqrt T) has_field_derivative sqrt T) (at v)"
    by (auto intro!: derivative_eq_intros)
  have c1: "((\<lambda>v. norm_cdf (?d1 v)) has_field_derivative phi (?d1 v) * D1) (at v)"
    by (rule DERIV_norm_cdf_chain[OF d])
  have c2: "((\<lambda>v. norm_cdf (?d1 v - v * sqrt T)) has_field_derivative
              phi (?d1 v - v * sqrt T) * (D1 - sqrt T)) (at v)"
    by (rule DERIV_norm_cdf_chain[OF DERIV_diff[OF d w]])
  have "((\<lambda>v. S * norm_cdf (?d1 v) - K * exp (- r * T) * norm_cdf (?d1 v - v * sqrt T))
           has_field_derivative
         S * (phi (?d1 v) * D1) - K * exp (- r * T) * (phi (?d1 v - v * sqrt T) * (D1 - sqrt T))) (at v)"
    by (rule DERIV_diff[OF DERIV_cmult[OF c1] DERIV_cmult[OF c2]])
  moreover have "S * (phi (?d1 v) * D1) - K * exp (- r * T) * (phi (?d1 v - v * sqrt T) * (D1 - sqrt T))
      = S * phi (?d1 v) * sqrt T"
  proof -
    have "K * exp (- r * T) * (phi (?d1 v - v * sqrt T) * (D1 - sqrt T))
        = (K * exp (- r * T) * phi (?d1 v - v * sqrt T)) * (D1 - sqrt T)"
      by (simp only: mult.assoc)
    also have "\<dots> = S * phi (?d1 v) * (D1 - sqrt T)"
      by (simp only: vega_identity[OF assms])
    finally show ?thesis
      by (simp add: algebra_simps)
  qed
  moreover have "0 \<le> S * phi (?d1 v) * sqrt T"
    using assms phi_pos[of "?d1 v"] by (simp add: less_imp_le)
  ultimately show ?thesis
    by (intro exI[of _ "S * phi (?d1 v) * sqrt T"]) simp
qed

lemma BlackScholes_parity:
  "BlackScholesModel_price (opt\<lparr>opt_type := Call\<rparr>) - BlackScholesModel_price (opt\<lparr>opt_type := Put\<rparr>)
     = opt_S opt - opt_K opt * exp (- (opt_r opt * opt_T opt))"
  by (simp add: BlackScholesModel_price_def Let_def norm_cdf_minus algebra_simps)

lemma BlackScholes_call_sigma:
  assumes "0 < opt_S opt" and "0 < opt_K opt" and "0 < opt_T opt" and "0 < opt_sigma opt"
    and "opt_sigma opt \<le> v'" and "opt_type opt = Call"
  shows "BlackScholesModel_price opt \<le> BlackScholesModel_price (opt\<lparr>opt_sigma := v'\<rparr>)"
proof -
  let ?f = "\<lambda>v. opt_S opt * norm_cdf ((ln (opt_S opt / opt_K opt) + (opt_r opt + 0.5 * v * v) * opt_T opt)
                                     / (v * sqrt (opt_T opt)))
               - opt_K opt * exp (- opt_r opt * opt_T opt)
                 * norm_cdf ((ln (opt_S opt / opt_K opt) + (opt_r opt + 0.5 * v * v) * opt_T opt)
                               / (v * sqrt (opt_T opt)) - v * sqrt (opt_T opt))"
  have "?f (opt_sigma opt) \<le> ?f v'"
  proof (rule DERIV_nonneg_imp_nondecreasing[OF assms(5)])
    fix x assume "opt_sigma opt \<le> x" and "x \<le> v'"
    then have "0 < x" using assms(4) by simp
    from DERIV_call_sigma[OF assms(1-3) this, of "opt_r opt"]
    show "\<exists>y. (?f has_real_derivative y) (at x) \<and> 0 \<le> y" .
  qed
  then show ?thesis
    by (simp add: BlackScholesModel_price_def Let_def assms(6))
qed

lemma BlackScholes_sigma_mono:
  assumes "0 < opt_S opt" and "0 < opt_K opt" and "0 < opt_T opt" and "0 < opt_sigma opt"
    and "opt_sigma opt \<le> v'"
  shows "BlackScholesModel_price opt \<le> BlackScholesModel_price (opt\<lparr>opt_sigma := v'\<rparr>)"
proof (cases "opt_type opt")
  case Call
  with assms show ?thesis by (rule BlackScholes_call_sigma)
next
  case Put
  let ?c = "opt\<lparr>opt_type := Call\<rparr>"
  have p1: "opt\<lparr>opt_type := Put\<rparr> = opt"
    using Put by simp
  have p2: "opt\<lparr>opt_sigma := v', opt_type := Put\<rparr> = opt\<lparr>opt_sigma := v'\<rparr>"
    using Put by simp
  have c2: "opt\<lparr>opt_sigma := v', opt_type := Call\<rparr> = ?c\<lparr>opt_sigma := v'\<rparr>"
    by simp
  have "BlackScholesModel_price ?c \<le> BlackScholesModel_price (?c\<lparr>opt_sigma := v'\<rparr>)"
    by (rule BlackScholes_call_sigma) (simp_all add: assms)
  moreover have "BlackScholesModel_price ?c - BlackScholesModel_price opt
      = opt_S opt - opt_K opt * exp (- (opt_r opt * opt_T opt))"
    using BlackScholes_parity[of opt] by (simp only: p1)
  moreover have "BlackScholesModel_price (?c\<lparr>opt_sigma := v'\<rparr>)
        - BlackScholesModel_price (opt\<lparr>opt_sigma := v'\<rparr>)
      = opt_S opt - opt_K opt * exp (- (opt_r opt * opt_T opt))"
    using BlackScholes_parity[of "opt\<lparr>opt_sigma := v'\<rparr>"] by (simp only: p2 c2) simp
  ultimately show ?thesis by linarith
qed

text \<open>
  The error function is at most \<open>1\<close>. For \<open>x \<ge> 0\<close> and every \<open>m > 0\<close> the function
  \<open>gauss_area\<^sup>2 + damped m\<close> does not increase, since the left Riemann sum of a decreasing
  function is above its area; at \<open>0\<close> it is a left Riemann sum of \<open>1/(1 + t\<^sup>2)\<close> over
  \<open>[0, 1]\<close>, within \<open>1/(2m)\<close> of \<open>arctan 1 = \<pi>/4\<close>. So \<open>gauss_area\<^sup>2 \<le> \<pi>/4\<close>.
\<close>

lemma DERIV_gauss_area: "DERIV gauss_area x :> exp (- (x\<^sup>2))"
proof -
  have "DERIV (\<lambda>x. sqrt pi / 2 * erf x) x :> sqrt pi / 2 * (2 / sqrt pi * exp (- (x\<^sup>2)))"
    by (rule DERIV_cmult[OF DERIV_erf])
  then show ?thesis
    by (simp add: gauss_area_def[abs_def])
qed

lemma gauss_area_0: "gauss_area 0 = 0"
  by (simp add: gauss_area_def erf_def erf_term_def)

lemma gauss_area_nonneg: "0 \<le> x \<Longrightarrow> 0 \<le> gauss_area x"
proof -
  assume x: "0 \<le> x"
  have "gauss_area 0 \<le> gauss_area x"
  proof (rule DERIV_nonneg_imp_nondecreasing[OF x])
    fix t :: real
    show "\<exists>y. DERIV gauss_area t :> y \<and> 0 \<le> y"
      using DERIV_gauss_area[of t] by (intro exI[of _ "exp (- (t\<^sup>2))"]) simp
  qed
  then show ?thesis by (simp add: gauss_area_0)
qed

lemma gauss_area_piece:
  assumes "0 \<le> a" and "a \<le> b"
  shows "gauss_area b - gauss_area a \<le> (b - a) * exp (- (a\<^sup>2))"
proof -
  have "gauss_area b - b * exp (- (a\<^sup>2)) \<le> gauss_area a - a * exp (- (a\<^sup>2))"
  proof (rule DERIV_nonpos_imp_nonincreasing[OF assms(2)])
    fix t :: real
    assume t: "a \<le> t" "t \<le> b"
    have d: "DERIV (\<lambda>t. gauss_area t - t * exp (- (a\<^sup>2))) t :> exp (- (t\<^sup>2)) - exp (- (a\<^sup>2))"
      by (auto intro!: derivative_eq_intros DERIV_gauss_area)
    have "a\<^sup>2 \<le> t\<^sup>2"
      using assms(1) t(1) by (simp add: power_mono)
    then have "exp (- (t\<^sup>2)) - exp (- (a\<^sup>2)) \<le> 0"
      by simp
    with d show "\<exists>y. DERIV (\<lambda>t. gauss_area t - t * exp (- (a\<^sup>2))) t :> y \<and> y \<le> 0"
      by blast
  qed
  then show ?thesis
    by (simp add: algebra_simps)
qed

lemma gauss_area_le_left_sum:
  assumes "0 \<le> x" and "0 < m"
  shows "gauss_area x \<le> left_sum m x"
proof -
  let ?f = "\<lambda>k. gauss_area (x * real k / real m)"
  have "gauss_area x = ?f m - ?f 0"
    using assms(2) by (simp add: gauss_area_0)
  also have "\<dots> = (\<Sum>k<m. ?f (Suc k) - ?f k)"
    by (rule sum_lessThan_telescope[symmetric])
  also have "\<dots> \<le> (\<Sum>k<m. x / real m * exp (- ((x * real k / real m)\<^sup>2)))"
  proof (rule sum_mono)
    fix k
    have a: "0 \<le> x * real k / real m"
      using assms by simp
    have b: "x * real k / real m \<le> x * real (Suc k) / real m"
      using assms by (simp add: divide_right_mono mult_left_mono)
    have "x * real (Suc k) / real m - x * real k / real m = x / real m"
      by (simp add: algebra_simps add_divide_distrib)
    with gauss_area_piece[OF a b]
    show "?f (Suc k) - ?f k \<le> x / real m * exp (- ((x * real k / real m)\<^sup>2))"
      by simp
  qed
  finally show ?thesis
    by (simp add: left_sum_def)
qed

lemma DERIV_damped:
  assumes "0 < m"
  shows "DERIV (damped m) x :> - 2 * exp (- (x\<^sup>2)) * left_sum m x"
proof -
  have tm: "((\<lambda>x. exp (- (x\<^sup>2) * (1 + (real k / real m)\<^sup>2)) / (1 + (real k / real m)\<^sup>2))
      has_field_derivative - 2 * exp (- (x\<^sup>2)) * (x * exp (- ((x * real k / real m)\<^sup>2)))) (at x)" for k
  proof -
    let ?c = "1 + (real k / real m)\<^sup>2"
    have c: "?c \<noteq> 0"
      by (metis add_pos_nonneg less_numeral_extra(1) less_irrefl zero_le_power2)
    have "((\<lambda>x. exp (- (x\<^sup>2) * ?c) / ?c) has_field_derivative
            exp (- (x\<^sup>2) * ?c) * (- (2 * x) * ?c) / ?c) (at x)"
      by (auto intro!: derivative_eq_intros)
    moreover have "exp (- (x\<^sup>2) * ?c) * (- (2 * x) * ?c) / ?c
        = - 2 * exp (- (x\<^sup>2)) * (x * exp (- ((x * real k / real m)\<^sup>2)))"
    proof -
      have "- (x\<^sup>2) * ?c = - (x\<^sup>2) + - ((x * real k / real m)\<^sup>2)"
        by (simp add: algebra_simps power_mult_distrib power_divide)
      then have "exp (- (x\<^sup>2) * ?c) = exp (- (x\<^sup>2)) * exp (- ((x * real k / real m)\<^sup>2))"
        by (simp only: exp_add)
      then show ?thesis
        using c by simp
    qed
    ultimately show ?thesis by simp
  qed
  have "((\<lambda>x. \<Sum>k<m. exp (- (x\<^sup>2) * (1 + (real k / real m)\<^sup>2)) / (1 + (real k / real m)\<^sup>2))
      has_field_derivative (\<Sum>k<m. - 2 * exp (- (x\<^sup>2)) * (x * exp (- ((x * real k / real m)\<^sup>2))))) (at x)"
    by (rule DERIV_sum) (rule tm)
  then have "((\<lambda>x. (\<Sum>k<m. exp (- (x\<^sup>2) * (1 + (real k / real m)\<^sup>2)) / (1 + (real k / real m)\<^sup>2)) / real m)
      has_field_derivative (\<Sum>k<m. - 2 * exp (- (x\<^sup>2)) * (x * exp (- ((x * real k / real m)\<^sup>2)))) / real m) (at x)"
    by (rule DERIV_cdivide)
  moreover have "(\<Sum>k<m. - 2 * exp (- (x\<^sup>2)) * (x * exp (- ((x * real k / real m)\<^sup>2)))) / real m
      = - 2 * exp (- (x\<^sup>2)) * left_sum m x"
    by (simp add: left_sum_def sum_distrib_left sum_divide_distrib mult.assoc)
  ultimately show ?thesis
    by (simp add: damped_def[abs_def])
qed

lemma damped_nonneg: "0 \<le> damped m x"
  unfolding damped_def
  by (intro divide_nonneg_nonneg sum_nonneg) simp_all

lemma gauss_area_square_le_damped:
  assumes "0 \<le> x" and "0 < m"
  shows "(gauss_area x)\<^sup>2 + damped m x \<le> damped m 0"
proof -
  have "(gauss_area x)\<^sup>2 + damped m x \<le> (gauss_area 0)\<^sup>2 + damped m 0"
  proof (rule DERIV_nonpos_imp_nonincreasing[OF assms(1)])
    fix t :: real
    assume t: "0 \<le> t" "t \<le> x"
    have d: "DERIV (\<lambda>t. (gauss_area t)\<^sup>2 + damped m t) t
        :> 2 * gauss_area t * exp (- (t\<^sup>2)) + - 2 * exp (- (t\<^sup>2)) * left_sum m t"
      by (auto intro!: derivative_eq_intros DERIV_gauss_area DERIV_damped[OF assms(2)])
    have "2 * gauss_area t * exp (- (t\<^sup>2)) + - 2 * exp (- (t\<^sup>2)) * left_sum m t
        = 2 * exp (- (t\<^sup>2)) * (gauss_area t - left_sum m t)"
      by (simp add: algebra_simps)
    also have "\<dots> \<le> 0"
      using gauss_area_le_left_sum[OF t(1) assms(2)]
      by (simp add: mult_nonneg_nonpos)
    finally show "\<exists>y. DERIV (\<lambda>t. (gauss_area t)\<^sup>2 + damped m t) t :> y \<and> y \<le> 0"
      using d by blast
  qed
  then show ?thesis
    by (simp add: gauss_area_0)
qed

lemma arctan_piece:
  assumes "0 \<le> a" and "a \<le> b"
  shows "(b - a) / (1 + b\<^sup>2) \<le> arctan b - arctan a"
proof -
  have "arctan a - a / (1 + b\<^sup>2) \<le> arctan b - b / (1 + b\<^sup>2)"
  proof (rule DERIV_nonneg_imp_nondecreasing[OF assms(2)])
    fix t :: real
    assume t: "a \<le> t" "t \<le> b"
    have nz: "1 + b\<^sup>2 \<noteq> 0"
      by (metis add_pos_nonneg less_numeral_extra(1) less_irrefl zero_le_power2)
    have d: "DERIV (\<lambda>t. arctan t - t / (1 + b\<^sup>2)) t :> inverse (1 + t\<^sup>2) - 1 / (1 + b\<^sup>2)"
      using nz by (auto intro!: derivative_eq_intros DERIV_arctan)
    have "t\<^sup>2 \<le> b\<^sup>2"
      using assms(1) t by (simp add: power_mono)
    then have "1 / (1 + b\<^sup>2) \<le> inverse (1 + t\<^sup>2)"
      by (simp add: inverse_eq_divide frac_le add_pos_nonneg)
    then have "0 \<le> inverse (1 + t\<^sup>2) - 1 / (1 + b\<^sup>2)"
      by simp
    with d show "\<exists>y. DERIV (\<lambda>t. arctan t - t / (1 + b\<^sup>2)) t :> y \<and> 0 \<le> y"
      by blast
  qed
  then show ?thesis
    by (simp add: diff_divide_distrib algebra_simps)
qed

lemma damped_0_le:
  assumes "0 < m"
  shows "damped m 0 \<le> pi / 4 + 1 / (2 * real m)"
proof -
  let ?f = "\<lambda>k. (1 / real m) / (1 + (real k / real m)\<^sup>2)"
  have right: "(\<Sum>k<m. ?f (Suc k)) \<le> pi / 4"
  proof -
    have "(\<Sum>k<m. ?f (Suc k)) \<le> (\<Sum>k<m. arctan (real (Suc k) / real m) - arctan (real k / real m))"
    proof (rule sum_mono)
      fix k
      have a: "0 \<le> real k / real m" by simp
      have b: "real k / real m \<le> real (Suc k) / real m"
        by (simp add: divide_right_mono)
      have "real (Suc k) / real m - real k / real m = 1 / real m"
        by (simp add: algebra_simps add_divide_distrib)
      with arctan_piece[OF a b]
      show "?f (Suc k) \<le> arctan (real (Suc k) / real m) - arctan (real k / real m)"
        by simp
    qed
    also have "\<dots> = arctan (real m / real m) - arctan (real 0 / real m)"
      by (rule sum_lessThan_telescope)
    also have "\<dots> = pi / 4"
      using assms by (simp add: arctan_one)
    finally show ?thesis .
  qed
  have "(\<Sum>k<m. ?f k) - (\<Sum>k<m. ?f (Suc k)) = (\<Sum>k<m. ?f k - ?f (Suc k))"
    by (simp add: sum_subtractf)
  also have "\<dots> = ?f 0 - ?f m"
    by (rule sum_lessThan_telescope')
  also have "\<dots> = 1 / (2 * real m)"
    using assms by (simp add: field_simps)
  finally have "(\<Sum>k<m. ?f k) \<le> pi / 4 + 1 / (2 * real m)"
    using right by linarith
  moreover have "damped m 0 = (\<Sum>k<m. ?f k)"
    by (simp add: damped_def sum_divide_distrib mult.commute)
  ultimately show ?thesis by simp
qed

lemma gauss_area_square_le: 
  assumes "0 \<le> x"
  shows "(gauss_area x)\<^sup>2 \<le> pi / 4"
proof (rule ccontr)
  assume "\<not> (gauss_area x)\<^sup>2 \<le> pi / 4"
  then have "0 < (gauss_area x)\<^sup>2 - pi / 4" by simp
  from reals_Archimedean[OF this] obtain n
    where n: "inverse (real (Suc n)) < (gauss_area x)\<^sup>2 - pi / 4" by blast
  have m: "0 < Suc n" by simp
  have "(gauss_area x)\<^sup>2 \<le> damped (Suc n) 0"
    using gauss_area_square_le_damped[OF assms m] damped_nonneg[of "Suc n" x] by linarith
  also have "\<dots> \<le> pi / 4 + 1 / (2 * real (Suc n))"
    by (rule damped_0_le[OF m])
  also have "1 / (2 * real (Suc n)) \<le> inverse (real (Suc n))"
    by (simp add: field_simps)
  finally show False
    using n by linarith
qed

lemma gauss_area_le: "0 \<le> x \<Longrightarrow> gauss_area x \<le> sqrt pi / 2"
proof -
  assume x: "0 \<le> x"
  have "(gauss_area x)\<^sup>2 \<le> (sqrt pi / 2)\<^sup>2"
    using gauss_area_square_le[OF x] by (simp add: power_divide)
  then show ?thesis
    by (rule power2_le_imp_le) simp
qed

lemma erf_le_1: "erf x \<le> 1"
proof (cases "0 \<le> x")
  case True
  from gauss_area_le[OF this] show ?thesis
    by (simp add: gauss_area_def field_simps)
next
  case False
  then have "0 \<le> gauss_area (- x)"
    by (intro gauss_area_nonneg) simp
  then have "sqrt pi * erf x \<le> 0"
    by (simp add: gauss_area_def erf_minus)
  then have "erf x \<le> 0"
    using pi_gt_zero by (simp add: mult_le_0_iff not_le)
  then show ?thesis by simp
qed

lemma erfc_nonneg: "0 \<le> erfc x"
  using erf_le_1[of x] by (simp add: erfc_def)

lemma norm_cdf_nonneg: "0 \<le> norm_cdf x"
  by (simp add: norm_cdf_def erfc_nonneg)

lemma norm_cdf_le_1: "norm_cdf x \<le> 1"
  using norm_cdf_nonneg[of "- x"] by (simp add: norm_cdf_minus)

text \<open>
  The price of a Call as a function of the spot price has the derivative \<open>\<Phi>(d1)\<close>, which
  lies in \<open>[0, 1]\<close>: the Call price does not decrease, and the Call price minus the spot
  price, hence the Put price, does not increase.
\<close>

lemma DERIV_call_spot:
  fixes S K T r v :: real
  assumes "0 < S" and "0 < K" and "0 < T" and "0 < v"
  shows "((\<lambda>S. S * norm_cdf ((ln (S / K) + (r + 0.5 * v * v) * T) / (v * sqrt T))
              - K * exp (- r * T)
                * norm_cdf ((ln (S / K) + (r + 0.5 * v * v) * T) / (v * sqrt T) - v * sqrt T))
           has_field_derivative
         norm_cdf ((ln (S / K) + (r + 0.5 * v * v) * T) / (v * sqrt T))) (at S)"
proof -
  let ?d1 = "\<lambda>S. (ln (S / K) + (r + 0.5 * v * v) * T) / (v * sqrt T)"
  define D1 where "D1 = (1 / S) / (v * sqrt T)"
  have nz: "v * sqrt T \<noteq> 0"
    using assms by simp
  have l: "((\<lambda>S. ln (S / K)) has_field_derivative 1 / S) (at S)"
    using assms by (auto intro!: derivative_eq_intros simp: field_simps)
  have "((\<lambda>S. ln (S / K) + (r + 0.5 * v * v) * T) has_field_derivative 1 / S + 0) (at S)"
    by (rule DERIV_add[OF l DERIV_const])
  then have d: "(?d1 has_field_derivative D1) (at S)"
    unfolding D1_def using DERIV_cdivide[of "\<lambda>S. ln (S / K) + (r + 0.5 * v * v) * T" "1 / S" S UNIV "v * sqrt T"]
    by simp
  have c1: "((\<lambda>S. norm_cdf (?d1 S)) has_field_derivative phi (?d1 S) * D1) (at S)"
    by (rule DERIV_norm_cdf_chain[OF d])
  have c2: "((\<lambda>S. norm_cdf (?d1 S - v * sqrt T)) has_field_derivative
              phi (?d1 S - v * sqrt T) * (D1 - 0)) (at S)"
    by (rule DERIV_norm_cdf_chain[OF DERIV_diff[OF d DERIV_const]])
  have m: "((\<lambda>S. S * norm_cdf (?d1 S)) has_field_derivative
              1 * norm_cdf (?d1 S) + phi (?d1 S) * D1 * S) (at S)"
    by (rule DERIV_mult[OF DERIV_ident c1])
  have "((\<lambda>S. S * norm_cdf (?d1 S) - K * exp (- r * T) * norm_cdf (?d1 S - v * sqrt T))
           has_field_derivative
         (1 * norm_cdf (?d1 S) + phi (?d1 S) * D1 * S)
           - K * exp (- r * T) * (phi (?d1 S - v * sqrt T) * (D1 - 0))) (at S)"
    by (rule DERIV_diff[OF m DERIV_cmult[OF c2]])
  moreover have "(1 * norm_cdf (?d1 S) + phi (?d1 S) * D1 * S)
           - K * exp (- r * T) * (phi (?d1 S - v * sqrt T) * (D1 - 0)) = norm_cdf (?d1 S)"
  proof -
    have "K * exp (- r * T) * (phi (?d1 S - v * sqrt T) * (D1 - 0))
        = (K * exp (- r * T) * phi (?d1 S - v * sqrt T)) * D1"
      by simp
    also have "\<dots> = S * phi (?d1 S) * D1"
      by (simp only: vega_identity[OF assms])
    finally have e: "K * exp (- r * T) * (phi (?d1 S - v * sqrt T) * (D1 - 0))
        = S * phi (?d1 S) * D1" .
    show ?thesis
      unfolding e by (simp add: algebra_simps)
  qed
  ultimately show ?thesis
    by (simp only:)
qed

lemma BlackScholes_call_spot:
  assumes "0 < opt_S opt" and "0 < opt_K opt" and "0 < opt_T opt" and "0 < opt_sigma opt"
    and "opt_S opt \<le> s'" and "opt_type opt = Call"
  shows "BlackScholesModel_price opt \<le> BlackScholesModel_price (opt\<lparr>opt_S := s'\<rparr>)"
    and "BlackScholesModel_price (opt\<lparr>opt_S := s'\<rparr>) - s' \<le> BlackScholesModel_price opt - opt_S opt"
proof -
  let ?f = "\<lambda>S. S * norm_cdf ((ln (S / opt_K opt) + (opt_r opt + 0.5 * opt_sigma opt * opt_sigma opt) * opt_T opt)
                               / (opt_sigma opt * sqrt (opt_T opt)))
               - opt_K opt * exp (- opt_r opt * opt_T opt)
                 * norm_cdf ((ln (S / opt_K opt) + (opt_r opt + 0.5 * opt_sigma opt * opt_sigma opt) * opt_T opt)
                               / (opt_sigma opt * sqrt (opt_T opt)) - opt_sigma opt * sqrt (opt_T opt))"
  have p: "BlackScholesModel_price opt = ?f (opt_S opt)"
    "BlackScholesModel_price (opt\<lparr>opt_S := s'\<rparr>) = ?f s'"
    by (simp_all add: BlackScholesModel_price_def Let_def assms(6))
  have "?f (opt_S opt) \<le> ?f s'"
  proof (rule DERIV_nonneg_imp_nondecreasing[OF assms(5)])
    fix x assume "opt_S opt \<le> x" and "x \<le> s'"
    then have x: "0 < x" using assms(1) by simp
    from DERIV_call_spot[OF x assms(2-4), of "opt_r opt"] norm_cdf_nonneg
    show "\<exists>y. (?f has_real_derivative y) (at x) \<and> 0 \<le> y" by blast
  qed
  then show "BlackScholesModel_price opt \<le> BlackScholesModel_price (opt\<lparr>opt_S := s'\<rparr>)"
    by (simp only: p)
  have "?f s' - s' \<le> ?f (opt_S opt) - opt_S opt"
  proof (rule DERIV_nonpos_imp_nonincreasing[OF assms(5)])
    fix x assume "opt_S opt \<le> x" and "x \<le> s'"
    then have x: "0 < x" using assms(1) by simp
    have "((\<lambda>S. ?f S - S) has_real_derivative
        norm_cdf ((ln (x / opt_K opt) + (opt_r opt + 0.5 * opt_sigma opt * opt_sigma opt) * opt_T opt)
                               / (opt_sigma opt * sqrt (opt_T opt))) - 1) (at x)"
      by (rule DERIV_diff[OF DERIV_call_spot[OF x assms(2-4), of "opt_r opt"] DERIV_ident])
    moreover have "norm_cdf ((ln (x / opt_K opt) + (opt_r opt + 0.5 * opt_sigma opt * opt_sigma opt) * opt_T opt)
                               / (opt_sigma opt * sqrt (opt_T opt))) - 1 \<le> 0"
      using norm_cdf_le_1 by simp
    ultimately show "\<exists>y. ((\<lambda>S. ?f S - S) has_real_derivative y) (at x) \<and> y \<le> 0" by blast
  qed
  then show "BlackScholesModel_price (opt\<lparr>opt_S := s'\<rparr>) - s' \<le> BlackScholesModel_price opt - opt_S opt"
    by (simp only: p)
qed

lemma BlackScholes_put_spot:
  assumes "0 < opt_S opt" and "0 < opt_K opt" and "0 < opt_T opt" and "0 < opt_sigma opt"
    and "opt_S opt \<le> s'" and "opt_type opt = Put"
  shows "BlackScholesModel_price (opt\<lparr>opt_S := s'\<rparr>) \<le> BlackScholesModel_price opt"
proof -
  let ?c = "opt\<lparr>opt_type := Call\<rparr>"
  have p1: "opt\<lparr>opt_type := Put\<rparr> = opt"
    using assms(6) by simp
  have p2: "opt\<lparr>opt_S := s', opt_type := Put\<rparr> = opt\<lparr>opt_S := s'\<rparr>"
    using assms(6) by simp
  have c2: "opt\<lparr>opt_S := s', opt_type := Call\<rparr> = ?c\<lparr>opt_S := s'\<rparr>"
    by simp
  have "BlackScholesModel_price (?c\<lparr>opt_S := s'\<rparr>) - s' \<le> BlackScholesModel_price ?c - opt_S ?c"
    by (rule BlackScholes_call_spot(2)) (simp_all add: assms)
  moreover have "BlackScholesModel_price ?c - BlackScholesModel_price opt
      = opt_S opt - opt_K opt * exp (- (opt_r opt * opt_T opt))"
    using BlackScholes_parity[of opt] by (simp only: p1)
  moreover have "BlackScholesModel_price (?c\<lparr>opt_S := s'\<rparr>)
        - BlackScholesModel_price (opt\<lparr>opt_S := s'\<rparr>)
      = s' - opt_K opt * exp (- (opt_r opt * opt_T opt))"
    using BlackScholes_parity[of "opt\<lparr>opt_S := s'\<rparr>"] by (simp only: p2 c2) simp
  ultimately show ?thesis by simp
qed

lemma BlackScholes_spot_mono:
  assumes "0 < opt_S opt" and "0 < opt_K opt" and "0 < opt_T opt" and "0 < opt_sigma opt"
    and "opt_S opt \<le> s'"
  shows "case opt_type opt of
           Call \<Rightarrow> BlackScholesModel_price opt \<le> BlackScholesModel_price (opt\<lparr>opt_S := s'\<rparr>)
         | Put \<Rightarrow> BlackScholesModel_price (opt\<lparr>opt_S := s'\<rparr>) \<le> BlackScholesModel_price opt"
proof (cases "opt_type opt")
  case Call
  with BlackScholes_call_spot(1)[OF assms Call] show ?thesis by simp
next
  case Put
  with BlackScholes_put_spot[OF assms Put] show ?thesis by simp
qed

section \<open>Simulation pricer\<close>

text \<open>The loop adds the payoffs of the draws \<open>i, \<dots>, N - 1\<close> to the running sum.\<close>

lemma mc_loop_sum:
  "0 \<le> i \<Longrightarrow> mc_loop opt draw N i s =
     s + (\<Sum>k = nat i..<nat N. payoff opt (spec_terminal_price opt (draw k)))"
proof (induction opt draw N i s rule: mc_loop.induct)
  case (1 opt draw N i s)
  show ?case
  proof (cases "i < N")
    case True
    have up: "{nat i..<nat N} = insert (nat i) {nat (i + 1)..<nat N}"
      using True "1.prems" by auto
    have notin: "nat i \<notin> {nat (i + 1)..<nat N}"
      using "1.prems" by auto
    have "mc_loop opt draw N i s =
        mc_loop opt draw N (i + 1) (s + payoff opt (spec_terminal_price opt (draw (nat i))))"
      using True
      by (subst mc_loop.simps) (simp add: Let_def spec_terminal_price_def power2_eq_square algebra_simps)
    also have "\<dots> = (s + payoff opt (spec_terminal_price opt (draw (nat i))))
        + (\<Sum>k = nat (i + 1)..<nat N. payoff opt (spec_terminal_price opt (draw k)))"
      using "1.IH"[OF True refl refl] "1.prems"
      by (simp add: Let_def spec_terminal_price_def power2_eq_square algebra_simps)
    finally show ?thesis
      using notin by (simp add: up)
  next
    case False
    then show ?thesis
      using "1.prems" by (subst mc_loop.simps) simp
  qed
qed

lemma mc_loop_nonneg: "0 \<le> s \<Longrightarrow> 0 \<le> mc_loop opt draw N i s"
proof (induction opt draw N i s rule: mc_loop.induct)
  case (1 opt draw N i s)
  show ?case
  proof (cases "i < N")
    case True
    then show ?thesis
      using "1.IH"[OF True refl refl] "1.prems" payoff_nonneg
      by (subst mc_loop.simps) (simp add: Let_def)
  next
    case False
    then show ?thesis using "1.prems" by (subst mc_loop.simps) simp
  qed
qed


lemma MonteCarloModel_price_spec:
  "0 < N \<Longrightarrow> MonteCarloModel_price (MonteCarloModel_init N) draw opt = spec_mc_estimate opt draw (nat N)"
proof -
  assume N: "0 < N"
  have "mc_loop opt draw N 0 0 =
      (\<Sum>i<nat N. spec_payoff (opt_type opt) (opt_K opt) (spec_terminal_price opt (draw i)))"
    using mc_loop_sum[of 0 opt draw N 0]
    by (simp add: payoff_spec_payoff atLeast0LessThan)
  moreover have "real (nat N) = real_of_int N"
    using N by simp
  ultimately show ?thesis
    by (simp add: MonteCarloModel_price_def MonteCarloModel_init_def spec_mc_estimate_def)
qed

text \<open>
  C3. For a sample count \<open>N > 0\<close> and the draws \<open>Z\<^sub>1, \<dots>, Z\<^sub>N\<close> made during the call
  (here \<open>draw 0, \<dots>, draw (N - 1)\<close>), the simulation pricer returns \<open>e\<^sup>-\<^sup>r\<^sup>T\<close> times the
  average of \<open>payoff(S \<cdot> exp((r - 0.5 \<sigma>\<^sup>2) T + \<sigma> \<surd>T Z\<^sub>i))\<close>, the payoff being
  \<open>max(x - K, 0)\<close> for a Call and \<open>max(K - x, 0)\<close> for a Put.
\<close>

theorem MonteCarloModel_price_estimate:
  assumes "0 < N"
  shows "MonteCarloModel_price (MonteCarloModel_init N) draw opt = spec_mc_estimate opt draw (nat N)"
  using assms by (rule MonteCarloModel_price_spec)


theorem MonteCarloModel_price_estimate_witness:
  "MonteCarloModel_price (MonteCarloModel_init 3) (\<lambda>i. real i)
       (EuropeanOption_init 100 100 1 (1/20) (1/5) Call)
     = spec_mc_estimate (EuropeanOption_init 100 100 1 (1/20) (1/5) Call) (\<lambda>i. real i) 3"
  using MonteCarloModel_price_estimate
    [of 3 "\<lambda>i. real i" "EuropeanOption_init 100 100 1 (1/20) (1/5) Call"]
  by simp

text \<open>In exact arithmetic the result of the simulation pricer is not negative.\<close>

lemma MonteCarloModel_price_nonneg_exact:
  assumes "0 < N"
  shows "0 \<le> MonteCarloModel_price (MonteCarloModel_init N) draw opt"
proof -
  have "0 \<le> mc_loop opt draw N 0 0"
    by (rule mc_loop_nonneg) simp
  then show ?thesis
    using assms by (simp add: MonteCarloModel_price_def MonteCarloModel_init_def)
qed

text \<open>The result of the simulation pricer depends on the draws.\<close>

lemma MonteCarloModel_price_depends_on_draws:
  "MonteCarloModel_price (MonteCarloModel_init 1) (\<lambda>i. - 4) (EuropeanOption_init 4 1 1 0 1 Call)
     < MonteCarloModel_price (MonteCarloModel_init 1) (\<lambda>i. 0) (EuropeanOption_init 4 1 1 0 1 Call)"
proof -
  have a: "4 * exp (- (9 / 2) :: real) \<le> 1"
  proof -
    have "1 + 9 / 2 \<le> exp (9 / 2 :: real)" by (rule exp_ge_add_one_self)
    then have "4 \<le> exp (9 / 2 :: real)" by simp
    then show ?thesis by (simp add: exp_minus field_simps)
  qed
  have b: "1 < 4 * exp (- (1 / 2) :: real)"
  proof -
    have "1 + (- (1 / 2)) \<le> exp (- (1 / 2) :: real)" by (rule exp_ge_add_one_self)
    then show ?thesis by simp
  qed
  show ?thesis
    using a b
    by (simp add: MonteCarloModel_price_spec spec_mc_estimate_def spec_terminal_price_def
        spec_payoff_def EuropeanOption_init_def)
qed

subsection \<open>The sign of the result\<close>

text \<open>The range of the finite values.\<close>

lemma DBL_MAX_less: "DBL_MAX < 2 ^ 1024"
proof -
  have "0 < (2::real) ^ 971" by (rule zero_less_power) simp
  then show ?thesis unfolding DBL_MAX_def by linarith
qed

lemma DBL_MAX_ge: "2 ^ 971 \<le> DBL_MAX"
proof -
  have "(2::real) ^ 1024 = 2 ^ 53 * 2 ^ 971"
    by (simp only: power_add[symmetric]) simp
  moreover have "(2::real) * 2 ^ 971 \<le> 2 ^ 53 * 2 ^ 971"
    by (rule mult_right_mono) simp_all
  ultimately show ?thesis
    unfolding DBL_MAX_def by linarith
qed

lemma DBL_MAX_ge_million: "1000000 \<le> DBL_MAX"
proof -
  have "(2::real) ^ 20 \<le> 2 ^ 971"
    by (rule power_increasing) simp_all
  moreover have "(1000000::real) \<le> 2 ^ 20" by simp
  ultimately show ?thesis
    using DBL_MAX_ge by linarith
qed

lemma DBL_MAX_pos: "0 < DBL_MAX"
  using DBL_MAX_ge_million by linarith

lemma exp_1000_overflows: "DBL_MAX < exp 1000"
proof -
  have "(1 + 8 / real 16) ^ 16 \<le> exp (8::real)"
    by (rule exp_ge_one_plus_x_over_n_power_n) simp_all
  moreover have "(2::real) ^ 9 \<le> (1 + 8 / real 16) ^ 16"
    by (simp add: power_divide)
  ultimately have "(2::real) ^ 9 \<le> exp 8" by linarith
  then have "((2::real) ^ 9) ^ 125 \<le> exp 8 ^ 125"
    by (rule power_mono) simp
  moreover have "exp (8::real) ^ 125 = exp (of_nat 125 * 8)"
    by (rule exp_of_nat_mult[symmetric])
  moreover have "((2::real) ^ 9) ^ 125 = 2 ^ 1125"
    by (simp only: power_mult[symmetric]) simp
  moreover have "(2::real) ^ 1024 \<le> 2 ^ 1125"
    by (rule power_increasing) simp_all
  ultimately have "(2::real) ^ 1024 \<le> exp 1000"
    by simp
  with DBL_MAX_less show ?thesis by linarith
qed

text \<open>
  Every payoff is NaN or \<open>\<ge> 0\<close>, and sums, exponentials, quotients by a positive
  number and products keep that.
\<close>

lemma nonneg_to_double: "0 \<le> x \<Longrightarrow> nonneg (to_double x)"
  using DBL_MAX_pos by (simp add: to_double_def nonneg_def)

lemma nan_or_nonneg_max0: "nan_or_nonneg (d_max a (Fin 0))"
  by (cases a) (simp_all add: d_max_def nan_or_nonneg_def nonneg_def)

lemma nan_or_nonneg_payoff: "nan_or_nonneg (payoff_ieee opt ST)"
  by (simp add: payoff_ieee_def nan_or_nonneg_max0)

lemma nan_or_nonneg_add:
  "nan_or_nonneg a \<Longrightarrow> nan_or_nonneg b \<Longrightarrow> nan_or_nonneg (d_add a b)"
  by (cases a; cases b) (auto simp: nan_or_nonneg_def nonneg_def intro: nonneg_to_double[unfolded nonneg_def])

lemma nan_or_nonneg_exp: "nan_or_nonneg (d_exp a)"
  by (cases a) (auto simp: nan_or_nonneg_def nonneg_def intro: nonneg_to_double[unfolded nonneg_def])

lemma nan_or_nonneg_div:
  "nan_or_nonneg a \<Longrightarrow> 0 < y \<Longrightarrow> nan_or_nonneg (d_div a (Fin y))"
  by (cases a) (auto simp: nan_or_nonneg_def nonneg_def intro: nonneg_to_double[unfolded nonneg_def])

lemma nan_or_nonneg_mul:
  "nan_or_nonneg a \<Longrightarrow> nan_or_nonneg b \<Longrightarrow> nan_or_nonneg (d_mul a b)"
  by (cases a; cases b) (auto simp: nan_or_nonneg_def nonneg_def intro: nonneg_to_double[unfolded nonneg_def])

lemma nan_or_nonneg_mc_loop:
  "nan_or_nonneg s \<Longrightarrow> nan_or_nonneg (mc_loop_ieee opt draw N i s)"
proof (induction opt draw N i s rule: mc_loop_ieee.induct)
  case (1 opt draw N i s)
  show ?case
  proof (cases "i < N")
    case True
    then show ?thesis
      using "1.IH"[OF True refl refl] "1.prems"
      by (subst mc_loop_ieee.simps)
         (simp add: Let_def nan_or_nonneg_add nan_or_nonneg_payoff del: mc_loop_ieee.simps)
  next
    case False
    then show ?thesis
      using "1.prems" by (subst mc_loop_ieee.simps) simp
  qed
qed

text \<open>
  C10. For every contract, either payoff kind, every sample count \<open>N > 0\<close> and whatever the
  draws are, the result of the simulation pricer is never a negative number: it is NaN
  or it is \<open>\<ge> 0\<close> (\<open>+Inf\<close> included), every payoff added to the sum and the discount factor
  being NaN or \<open>\<ge> 0\<close>.
\<close>

theorem MonteCarloModel_price_not_negative:
  assumes "0 < N"
  shows "MonteCarloModel_price_ieee (MonteCarloModel_init N) draw opt = NaN
         \<or> nonneg (MonteCarloModel_price_ieee (MonteCarloModel_init N) draw opt)"
proof -
  have "nan_or_nonneg (mc_loop_ieee opt draw N 0 (Fin 0))"
    by (rule nan_or_nonneg_mc_loop) (simp add: nan_or_nonneg_def nonneg_def)
  then have "nan_or_nonneg (d_div (mc_loop_ieee opt draw N 0 (Fin 0)) (Fin (real_of_int N)))"
    using assms by (intro nan_or_nonneg_div) simp_all
  then have "nan_or_nonneg (d_mul (d_exp (d_mul (d_neg (ieee_r opt)) (ieee_T opt)))
      (d_div (mc_loop_ieee opt draw N 0 (Fin 0)) (Fin (real_of_int N))))"
    by (intro nan_or_nonneg_mul nan_or_nonneg_exp)
  then show ?thesis
    by (simp add: nan_or_nonneg_def MonteCarloModel_price_ieee_def MonteCarloModel_init_def
        del: mc_loop_ieee.simps)
qed

theorem MonteCarloModel_price_not_negative_witness:
  "MonteCarloModel_price_ieee (MonteCarloModel_init 3) (\<lambda>i. Fin (real i))
     \<lparr>ieee_S = Fin 100, ieee_K = Fin 100, ieee_T = Fin 1, ieee_r = Fin (1 / 20),
      ieee_sigma = Fin (1 / 5), ieee_type = Put\<rparr> = NaN
   \<or> nonneg (MonteCarloModel_price_ieee (MonteCarloModel_init 3) (\<lambda>i. Fin (real i))
     \<lparr>ieee_S = Fin 100, ieee_K = Fin 100, ieee_T = Fin 1, ieee_r = Fin (1 / 20),
      ieee_sigma = Fin (1 / 5), ieee_type = Put\<rparr>)"
  using MonteCarloModel_price_not_negative[of 3 "\<lambda>i. Fin (real i)"
      "\<lparr>ieee_S = Fin 100, ieee_K = Fin 100, ieee_T = Fin 1, ieee_r = Fin (1 / 20),
        ieee_sigma = Fin (1 / 5), ieee_type = Put\<rparr>"]
  by simp

text \<open>
  The result is not \<open>\<ge> 0\<close> for every rate: at \<open>r = -1000\<close> and \<open>T = 1\<close> the discount factor
  \<open>exp(1000)\<close> overflows to \<open>+Inf\<close>, the payoff of the Call is \<open>0\<close>, and \<open>Inf \<cdot> 0\<close> is NaN.
  A negative maturity gives NaN as well, through its square root.
\<close>

lemma to_double_Fin: "- DBL_MAX \<le> x \<Longrightarrow> x \<le> DBL_MAX \<Longrightarrow> to_double x = Fin x"
  by (simp add: to_double_def)

lemma to_double_small: "\<bar>x\<bar> \<le> 1000000 \<Longrightarrow> to_double x = Fin x"
  using DBL_MAX_ge_million by (intro to_double_Fin) linarith+

lemma mc_loop_ieee_one:
  "mc_loop_ieee opt draw 1 0 s =
     d_add s (payoff_ieee opt
       (d_mul (ieee_S opt)
          (d_exp (d_add
             (d_mul (d_sub (ieee_r opt)
                       (d_mul (d_mul (Fin 0.5) (ieee_sigma opt)) (ieee_sigma opt)))
                    (ieee_T opt))
             (d_mul (d_mul (ieee_sigma opt) (d_sqrt (ieee_T opt))) (draw 0))))))"
  by (subst mc_loop_ieee.simps, subst mc_loop_ieee.simps) (simp add: Let_def)

lemma discount_overflow_example:
  "MonteCarloModel_price_ieee (MonteCarloModel_init 1) (\<lambda>i. Fin 0)
     \<lparr>ieee_S = Fin 100, ieee_K = Fin 100, ieee_T = Fin 1, ieee_r = Fin (- 1000),
      ieee_sigma = Fin (1 / 5), ieee_type = Call\<rparr> = NaN"
proof -
  let ?e = "exp (- (50001 / 50) :: real)"
  have e: "0 < ?e" "?e < 1" by simp_all
  have t1: "to_double ?e = Fin ?e"
    using e by (intro to_double_small) (simp only: abs_le_iff, linarith)
  have t2: "to_double (100 * ?e) = Fin (100 * ?e)"
    using e by (intro to_double_small) (simp only: abs_le_iff, linarith)
  have t3: "to_double (100 * ?e - 100) = Fin (100 * ?e - 100)"
    using e by (intro to_double_small) (simp only: abs_le_iff, linarith)
  have t4: "to_double (exp 1000) = PInf"
    using exp_1000_overflows by (simp add: to_double_def)
  have neg: "100 * ?e - 100 < 0"
    using e by simp
  show ?thesis
    using neg
    by (simp add: MonteCarloModel_price_ieee_def MonteCarloModel_init_def mc_loop_ieee_one payoff_ieee_def d_sub_def
        d_max_def to_double_small t1 t2 t3 t4 del: mc_loop_ieee.simps)
qed

lemma negative_maturity_example:
  "MonteCarloModel_price_ieee (MonteCarloModel_init 1) (\<lambda>i. Fin 0)
     \<lparr>ieee_S = Fin 100, ieee_K = Fin 100, ieee_T = Fin (- 1), ieee_r = Fin 0,
      ieee_sigma = Fin (1 / 5), ieee_type = Call\<rparr> = NaN"
  by (simp add: MonteCarloModel_price_ieee_def MonteCarloModel_init_def mc_loop_ieee_one payoff_ieee_def d_sub_def
      d_max_def to_double_small del: mc_loop_ieee.simps)

text \<open>The result at \<open>r = -1000\<close> is not a number \<open>\<ge> 0\<close>.\<close>

theorem MonteCarloModel_price_nonneg_counterexample:
  "\<not> nonneg (MonteCarloModel_price_ieee (MonteCarloModel_init 1) (\<lambda>i. Fin 0)
     \<lparr>ieee_S = Fin 100, ieee_K = Fin 100, ieee_T = Fin 1, ieee_r = Fin (- 1000),
      ieee_sigma = Fin (1 / 5), ieee_type = Call\<rparr>)"
  by (simp only: discount_overflow_example) (simp add: nonneg_def)

section \<open>Lattice pricer\<close>

text \<open>The three loops of the source are the folds of the specification.\<close>

lemma foldl_update_map:
  "k \<le> length vs \<Longrightarrow>
     foldl (\<lambda>ws j. ws[j := f j]) vs [0..<k] = map f [0..<k] @ drop k vs"
proof (induction k)
  case 0
  then show ?case by simp
next
  case (Suc k)
  then have "k < length vs" by simp
  then have "drop k vs = vs ! k # drop (Suc k) vs"
    by (simp add: Cons_nth_drop_Suc)
  then show ?case
    using Suc by (simp add: list_update_append)
qed

lemma terminal_loop_foldl:
  "0 \<le> i \<Longrightarrow>
     terminal_loop opt u d N i vs =
       foldl (\<lambda>ws j. ws[j := payoff opt (opt_S opt * u ^ (nat N - j) * d ^ j)]) vs
         [nat i..<nat (N + 1)]"
proof (induction opt u d N i vs rule: terminal_loop.induct)
  case (1 opt u d N i vs)
  show ?case
  proof (cases "i \<le> N")
    case True
    have "nat i < nat (N + 1)"
      using True "1.prems" by simp
    from upt_conv_Cons[OF this]
    have up: "[nat i..<nat (N + 1)] = nat i # [nat (i + 1)..<nat (N + 1)]"
      using "1.prems" by (simp add: nat_add_distrib)
    have ex: "nat (N - i) = nat N - nat i"
      using True "1.prems" by (simp add: nat_diff_distrib)
    show ?thesis
      using True "1.IH"[OF True refl] "1.prems"
      by (subst terminal_loop.simps) (simp add: Let_def up ex)
  next
    case False
    then show ?thesis
      using "1.prems" by (subst terminal_loop.simps) simp
  qed
qed

lemma inner_loop_foldl:
  "0 \<le> i \<Longrightarrow>
     inner_loop discount p step i vs = foldl (crr_replace discount p) vs [nat i..<nat (step + 1)]"
proof (induction discount p step i vs rule: inner_loop.induct)
  case (1 discount p step i vs)
  show ?case
  proof (cases "i \<le> step")
    case True
    have "nat i < nat (step + 1)"
      using True "1.prems" by simp
    from upt_conv_Cons[OF this]
    have up: "[nat i..<nat (step + 1)] = nat i # [nat (i + 1)..<nat (step + 1)]"
      using "1.prems" by (simp add: nat_add_distrib)
    have ix: "nat (i + 1) = nat i + 1"
      using "1.prems" by (simp add: nat_add_distrib)
    have upd: "vs[nat i := discount * (p * vs ! nat i + (1 - p) * vs ! nat (i + 1))]
                 = crr_replace discount p vs (nat i)"
      by (simp only: crr_replace_def ix)
    have "inner_loop discount p step i vs
            = inner_loop discount p step (i + 1) (crr_replace discount p vs (nat i))"
      using True by (subst inner_loop.simps) (simp only: upd if_True)
    also have "\<dots> = foldl (crr_replace discount p) (crr_replace discount p vs (nat i))
                        [nat (i + 1)..<nat (step + 1)]"
    proof -
      have "0 \<le> i + 1" using "1.prems" by simp
      from "1.IH"[OF True this] show ?thesis unfolding upd .
    qed
    finally show ?thesis
      by (simp only: up foldl_Cons)
  next
    case False
    then show ?thesis
      using "1.prems" by (subst inner_loop.simps) simp
  qed
qed

lemma backward_loop_foldl:
  "backward_loop discount p step vs =
     foldl (crr_step discount p) vs (rev [0..<nat (step + 1)])"
proof (induction discount p step vs rule: backward_loop.induct)
  case (1 discount p step vs)
  show ?case
  proof (cases "0 \<le> step")
    case True
    have up: "nat (step + 1) = Suc (nat step)"
      using True by (simp add: nat_add_distrib)
    have inner: "inner_loop discount p step 0 vs = crr_step discount p vs (nat step)"
      by (simp add: inner_loop_foldl crr_step_def up del: inner_loop.simps)
    show ?thesis
      using True "1.IH"[OF True]
      by (subst backward_loop.simps) (simp add: up inner del: backward_loop.simps inner_loop.simps)
  next
    case False
    then show ?thesis
      by (subst backward_loop.simps) simp
  qed
qed

lemma length_foldl_crr_replace: "length (foldl (crr_replace discount p) vs js) = length vs"
  by (induction js arbitrary: vs) (simp_all add: crr_replace_def)

lemma length_crr_step: "length (crr_step discount p vs step) = length vs"
  unfolding crr_step_def by (rule length_foldl_crr_replace)

lemma length_foldl_crr_step: "length (foldl (crr_step discount p) vs ss) = length vs"
  by (induction ss arbitrary: vs) (simp_all add: length_crr_step)

lemma terminal_loop_crr_terminal:
  assumes "0 \<le> N"
  shows "terminal_loop opt (crr_u opt (nat N)) (crr_d opt (nat N)) N 0 (replicate (nat (N + 1)) 0)
         = crr_terminal opt (nat N)"
proof -
  have n: "nat (N + 1) = Suc (nat N)"
    using assms by (simp add: nat_add_distrib)
  have f: "(\<lambda>j. payoff opt (opt_S opt * crr_u opt (nat N) ^ (nat N - j) * crr_d opt (nat N) ^ j))
           = crr_terminal_value opt (nat N)"
    by (rule ext) (simp add: crr_terminal_value_def payoff_spec_payoff)
  have "terminal_loop opt (crr_u opt (nat N)) (crr_d opt (nat N)) N 0 (replicate (nat (N + 1)) 0)
      = foldl (\<lambda>ws j. ws[j := crr_terminal_value opt (nat N) j]) (replicate (Suc (nat N)) 0)
          [0..<Suc (nat N)]"
    unfolding terminal_loop_foldl[OF order_refl] n f[symmetric] by simp
  also have "\<dots> = map (crr_terminal_value opt (nat N)) [0..<Suc (nat N)]
                  @ drop (Suc (nat N)) (replicate (Suc (nat N)) 0)"
    by (rule foldl_update_map) simp
  finally show ?thesis
    by (simp add: crr_terminal_def del: upt_Suc replicate_Suc)
qed


lemma BinomialModel_price_value:
  assumes "0 < N" and "N < INT_MAX"
  shows "BinomialModel_price (BinomialModel_init N) opt = Inr (crr_price opt (nat N))"
proof -
  have r: "real_of_int N = real (nat N)"
    using assms by simp
  have n1: "nat (N - 1 + 1) = nat N" by simp
  have ne: "foldl (crr_step (crr_discount opt (nat N)) (crr_p opt (nat N)))
              (crr_terminal opt (nat N)) (rev [0..<nat N]) \<noteq> []"
    using length_foldl_crr_step[of "crr_discount opt (nat N)" "crr_p opt (nat N)" "crr_terminal opt (nat N)" "rev [0..<nat N]"]
    by (auto simp: crr_terminal_def simp del: upt_Suc)
  have tl: "terminal_loop opt (exp (opt_sigma opt * sqrt (opt_T opt / real (nat N))))
             (1 / exp (opt_sigma opt * sqrt (opt_T opt / real (nat N)))) N 0 (replicate (nat (N + 1)) 0)
            = crr_terminal opt (nat N)"
    using terminal_loop_crr_terminal[of N opt] assms
    by (simp add: crr_u_def crr_d_def crr_dt_def del: terminal_loop.simps)
  show ?thesis
    unfolding BinomialModel_price_def BinomialModel_init_def Let_def
    using assms ne
    apply (simp only: BinomialModel.simps r tl backward_loop_foldl n1)
    apply (simp add: crr_price_def crr_discount_def crr_p_def crr_u_def crr_d_def crr_dt_def
        del: terminal_loop.simps backward_loop.simps upt_Suc)
    done
qed

text \<open>In place or not: one backward step reads the values of the level before.\<close>

lemma foldl_crr_replace_nth:
  "n < length vs \<Longrightarrow>
     length (foldl (crr_replace discount p) vs [0..<n]) = length vs \<and>
     (\<forall>j<length vs. foldl (crr_replace discount p) vs [0..<n] ! j =
        (if j < n then discount * (p * vs ! j + (1 - p) * vs ! (j + 1)) else vs ! j))"
proof (induction n)
  case 0
  then show ?case by simp
next
  case (Suc n)
  let ?ws = "foldl (crr_replace discount p) vs [0..<n]"
  from Suc have len: "length ?ws = length vs"
    and nth: "\<And>j. j < length vs \<Longrightarrow>
        ?ws ! j = (if j < n then discount * (p * vs ! j + (1 - p) * vs ! (j + 1)) else vs ! j)"
    by simp_all
  have here: "?ws ! n = vs ! n" and nxt: "?ws ! Suc n = vs ! Suc n"
    using Suc.prems nth[of n] nth[of "Suc n"] by simp_all
  have res: "foldl (crr_replace discount p) vs [0..<Suc n]
      = ?ws[n := discount * (p * vs ! n + (1 - p) * vs ! (n + 1))]"
    by (simp add: crr_replace_def here nxt)
  show ?case
    unfolding res using len nth Suc.prems
    by (auto simp: nth_list_update less_Suc_eq)
qed

lemma crr_step_nth:
  assumes "Suc step < length vs" and "j < length vs"
  shows "crr_step discount p vs step ! j =
     (if j \<le> step then discount * (p * vs ! j + (1 - p) * vs ! (j + 1)) else vs ! j)"
  using foldl_crr_replace_nth[OF assms(1), of discount p] assms(2)
  by (simp add: crr_step_def less_Suc_eq_le del: upt_Suc)

lemma backward_lattice_value:
  assumes len: "length vs = Suc n" and tm: "\<And>j. j \<le> n \<Longrightarrow> vs ! j = term j"
  shows "k \<le> n \<Longrightarrow> j \<le> n - k \<Longrightarrow>
     foldl (crr_step discount p) vs (rev [n - k..<n]) ! j = lattice_value term discount p k j"
proof (induction k arbitrary: j)
  case 0
  then show ?case by (simp add: tm)
next
  case (Suc k)
  let ?W = "foldl (crr_step discount p) vs (rev [n - k..<n])"
  have lenW: "length ?W = Suc n"
    by (simp add: length_foldl_crr_step len)
  have "n - Suc k < n" using Suc.prems by simp
  from upt_conv_Cons[OF this]
  have up: "[n - Suc k..<n] = (n - Suc k) # [n - k..<n]"
    using Suc.prems by (simp add: Suc_diff_Suc)
  have res: "foldl (crr_step discount p) vs (rev [n - Suc k..<n])
      = crr_step discount p ?W (n - Suc k)"
    by (simp only: up rev.simps foldl_append foldl_Cons foldl_Nil)
  have a: "Suc (n - Suc k) < length ?W" and b: "j < length ?W"
    using Suc.prems lenW by simp_all
  have j1: "j \<le> n - k" and j2: "j + 1 \<le> n - k"
    using Suc.prems by simp_all
  have k: "k \<le> n" using Suc.prems by simp
  show ?case
    unfolding res crr_step_nth[OF a b]
    using Suc.prems(2) Suc.IH[OF k j1] Suc.IH[OF k j2] by simp
qed

lemma crr_price_lattice_value:
  "crr_price opt n =
     lattice_value (crr_terminal_value opt n) (crr_discount opt n) (crr_p opt n) n 0"
proof -
  have "foldl (crr_step (crr_discount opt n) (crr_p opt n)) (crr_terminal opt n) (rev [n - n..<n]) ! 0
      = lattice_value (crr_terminal_value opt n) (crr_discount opt n) (crr_p opt n) n 0"
  proof (rule backward_lattice_value)
    show "length (crr_terminal opt n) = Suc n"
      by (simp add: crr_terminal_def del: upt_Suc)
    show "crr_terminal opt n ! j = crr_terminal_value opt n j" if "j \<le> n" for j
      using that unfolding crr_terminal_def
      by (subst nth_map) (simp_all add: less_Suc_eq_le del: upt_Suc)
  qed simp_all
  then show ?thesis
    by (simp add: crr_price_def)
qed

lemma lattice_value_mono:
  assumes "0 \<le> discount" and "0 \<le> p" and "p \<le> 1" and "\<And>i. t1 i \<le> t2 i"
  shows "lattice_value t1 discount p k i \<le> lattice_value t2 discount p k i"
proof (induction k arbitrary: i)
  case 0
  then show ?case by (simp add: assms)
next
  case (Suc k)
  have "p * lattice_value t1 discount p k i + (1 - p) * lattice_value t1 discount p k (i + 1)
      \<le> p * lattice_value t2 discount p k i + (1 - p) * lattice_value t2 discount p k (i + 1)"
    using assms(2,3) Suc[of i] Suc[of "i + 1"]
    by (intro add_mono mult_left_mono) simp_all
  then show ?case
    using assms(1) by (simp add: mult_left_mono)
qed

lemma BinomialModel_price_one_step:
  "BinomialModel_price (BinomialModel_init 1) opt =
     Inr (crr_discount opt 1 * (crr_p opt 1 * crr_terminal_value opt 1 0
                                + (1 - crr_p opt 1) * crr_terminal_value opt 1 1))"
  using BinomialModel_price_value[of 1 opt]
  by (simp add: INT_MAX_def crr_price_lattice_value)

text \<open>The step counts at which \<^verbatim>\<open>price\<close> returns no value.\<close>

lemma BinomialModel_price_INT_MAX:
  "BinomialModel_price (BinomialModel_init 2147483647) opt = Inl SignedOverflow"
  by (simp add: BinomialModel_price_def BinomialModel_init_def INT_MAX_def Let_def)

lemma BinomialModel_price_negative:
  "N < - 1 \<Longrightarrow> BinomialModel_price (BinomialModel_init N) opt = Inl LengthError"
  by (simp add: BinomialModel_price_def BinomialModel_init_def INT_MAX_def Let_def)

lemma BinomialModel_price_minus_one:
  "BinomialModel_price (BinomialModel_init (- 1)) opt = Inl OutOfRange"
  by (simp add: BinomialModel_price_def BinomialModel_init_def INT_MAX_def Let_def)

text \<open>
  C2. For a contract with \<open>S, K, T, \<sigma> > 0\<close> and a step count
  \<open>0 < N < INT_MAX\<close>, the lattice pricer returns the result of the Cox-Ross-Rubinstein
  recursion: with \<open>dt = T/N\<close>, \<open>u = exp(\<sigma> \<surd>dt)\<close>, \<open>d = 1/u\<close>,
  \<open>p = (exp(r dt) - d)/(u - d)\<close> and \<open>discount = exp(-r dt)\<close>, terminal value \<open>i\<close> is
  \<open>payoff(S u\<^sup>N\<^sup>-\<^sup>i d\<^sup>i)\<close>, each step from \<open>N - 1\<close> down to \<open>0\<close> replaces \<open>values[i]\<close> by
  \<open>discount \<cdot> (p \<cdot> values[i] + (1 - p) \<cdot> values[i+1])\<close> for \<open>i = 0..step\<close>, and the result is
  \<open>values[0]\<close>.
\<close>

theorem BinomialModel_price_crr:
  assumes "0 < opt_S opt" and "0 < opt_K opt" and "0 < opt_T opt" and "0 < opt_sigma opt"
    and "0 < N" and "N < INT_MAX"
  shows "BinomialModel_price (BinomialModel_init N) opt = Inr (crr_price opt (nat N))"
  using assms(5,6) by (rule BinomialModel_price_value)

theorem BinomialModel_price_crr_witness:
  "BinomialModel_price (BinomialModel_init 3) (EuropeanOption_init 100 100 1 (1/20) (1/5) Call)
     = Inr (crr_price (EuropeanOption_init 100 100 1 (1/20) (1/5) Call) 3)"
  using BinomialModel_price_crr[of "EuropeanOption_init 100 100 1 (1/20) (1/5) Call" 3]
  by (simp add: EuropeanOption_init_def INT_MAX_def)

text \<open>
  The bound on \<open>N\<close> is needed: at \<open>N = INT_MAX\<close> the size \<^verbatim>\<open>N + 1\<close> of the vector
  overflows \<^verbatim>\<open>int\<close> and \<^verbatim>\<open>price\<close> returns no value, so the result is not the
  recursion's for every \<open>N > 0\<close>.
\<close>

theorem BinomialModel_price_crr_counterexample:
  "BinomialModel_price (BinomialModel_init 2147483647)
       (EuropeanOption_init 100 100 1 (1/20) (1/5) Call)
     \<noteq> Inr (crr_price (EuropeanOption_init 100 100 1 (1/20) (1/5) Call) (nat 2147483647))"
  by (simp add: BinomialModel_price_INT_MAX)

lemma crr_p_example: "1 < crr_p (EuropeanOption_init s 1 1 2 1 Put) 1"
proof -
  have e: "exp (1::real) < exp 2" by simp
  have d: "1 / exp (1::real) < exp 1"
    using exp_gt_one[of "1::real"] by (simp add: field_simps less_trans[of _ 1])
  have "1 < (exp 2 - 1 / exp 1) / (exp 1 - 1 / exp (1::real))"
    using e d by (simp add: field_simps)
  then show ?thesis
    by (simp add: crr_p_def crr_u_def crr_d_def crr_dt_def EuropeanOption_init_def)
qed

text \<open>
  C9. The lattice pricer neither clamps nor validates the risk-neutral
  probability \<open>p = (exp(r dt) - d)/(u - d)\<close>: for a contract with \<open>S, K, T, \<sigma> > 0\<close> and a
  step count \<open>0 < N < INT_MAX\<close> the call returns a value, the root of the lattice computed
  with \<open>p\<close> as it is, also when \<open>p\<close> lies outside \<open>[0, 1]\<close> (the witness has \<open>p > 1\<close>).
\<close>

theorem BinomialModel_price_unclamped:
  assumes "0 < opt_S opt" and "0 < opt_K opt" and "0 < opt_T opt" and "0 < opt_sigma opt"
    and "0 < N" and "N < INT_MAX"
  shows "BinomialModel_price (BinomialModel_init N) opt =
     Inr (lattice_value (crr_terminal_value opt (nat N)) (crr_discount opt (nat N))
            (crr_p opt (nat N)) (nat N) 0)"
  using BinomialModel_price_value[OF assms(5,6)] by (simp add: crr_price_lattice_value)

theorem BinomialModel_price_unclamped_witness:
  "1 < crr_p (EuropeanOption_init 1 1 1 2 1 Put) 1 \<and>
   BinomialModel_price (BinomialModel_init 1) (EuropeanOption_init 1 1 1 2 1 Put) =
     Inr (lattice_value (crr_terminal_value (EuropeanOption_init 1 1 1 2 1 Put) 1)
            (crr_discount (EuropeanOption_init 1 1 1 2 1 Put) 1)
            (crr_p (EuropeanOption_init 1 1 1 2 1 Put) 1) 1 0)"
  using BinomialModel_price_unclamped[of "EuropeanOption_init 1 1 1 2 1 Put" 1] crr_p_example
  by (simp add: EuropeanOption_init_def INT_MAX_def)

text \<open>
  Not for every \<open>N > 0\<close>: at \<open>N = INT_MAX\<close> the call does not run to completion.
\<close>

theorem BinomialModel_price_unclamped_counterexample:
  "BinomialModel_price (BinomialModel_init 2147483647) (EuropeanOption_init 1 1 1 2 1 Put)
     = Inl SignedOverflow"
  by (rule BinomialModel_price_INT_MAX)

section \<open>Validation\<close>

text \<open>
  C5. Nothing validates \<open>S\<close>, \<open>K\<close>, \<open>T\<close> or \<open>\<sigma>\<close>: the constructor stores
  any six values unchanged, non-positive ones too, and \<^verbatim>\<open>price\<close> computes with them
  and returns a value instead of an error (shown for the lattice pricer, the one pricer
  with a failure path, for \<open>0 < N < INT_MAX\<close>; the other two return a number by their
  type).
\<close>

theorem no_contract_validation:
  assumes "0 < N" and "N < INT_MAX"
  shows "opt_S (EuropeanOption_init s k t r v ty) = s \<and>
         opt_K (EuropeanOption_init s k t r v ty) = k \<and>
         opt_T (EuropeanOption_init s k t r v ty) = t \<and>
         opt_r (EuropeanOption_init s k t r v ty) = r \<and>
         opt_sigma (EuropeanOption_init s k t r v ty) = v \<and>
         opt_type (EuropeanOption_init s k t r v ty) = ty \<and>
         BinomialModel_price (BinomialModel_init N) (EuropeanOption_init s k t r v ty)
           = Inr (crr_price (EuropeanOption_init s k t r v ty) (nat N))"
  using BinomialModel_price_value[OF assms] by (simp add: EuropeanOption_init_def)

theorem no_contract_validation_witness:
  "opt_S (EuropeanOption_init (- 100) 0 (- 1) 0 0 Call) = - 100 \<and>
   opt_K (EuropeanOption_init (- 100) 0 (- 1) 0 0 Call) = 0 \<and>
   opt_T (EuropeanOption_init (- 100) 0 (- 1) 0 0 Call) = - 1 \<and>
   opt_sigma (EuropeanOption_init (- 100) 0 (- 1) 0 0 Call) = 0 \<and>
   BinomialModel_price (BinomialModel_init 2) (EuropeanOption_init (- 100) 0 (- 1) 0 0 Call)
     = Inr (crr_price (EuropeanOption_init (- 100) 0 (- 1) 0 0 Call) 2)"
  using no_contract_validation[of 2 "- 100" 0 "- 1" 0 0 Call]
  by (simp add: INT_MAX_def)

text \<open>
  A contract with a non-positive parameter is not refused: a Put on a spot of \<open>0\<close> is
  priced at \<open>1\<close> by the one-step lattice, with no error.
\<close>

theorem no_validation_counterexample:
  "BinomialModel_price (BinomialModel_init 1) (EuropeanOption_init 0 1 1 0 1 Put) = Inr 1"
  by (simp add: BinomialModel_price_one_step crr_terminal_value_def crr_discount_def
      spec_payoff_def EuropeanOption_init_def algebra_simps)

text \<open>
  C6. Constructing a simulation or a lattice pricer never rejects its count:
  both constructors store every \<^verbatim>\<open>int\<close>, positive or not, unchanged. A step count
  below \<open>-1\<close> only fails later, inside \<^verbatim>\<open>price\<close>, when the vector is allocated.
\<close>

theorem no_configuration_validation:
  "mc_N (MonteCarloModel_init n) = n \<and> bm_N (BinomialModel_init n) = n \<and>
   (n < - 1 \<longrightarrow> BinomialModel_price (BinomialModel_init n) opt = Inl LengthError)"
  by (simp add: MonteCarloModel_init_def BinomialModel_init_def BinomialModel_price_negative[unfolded BinomialModel_init_def])

theorem no_configuration_validation_witness:
  "mc_N (MonteCarloModel_init (- 2)) = - 2 \<and> bm_N (BinomialModel_init (- 2)) = - 2 \<and>
   BinomialModel_price (BinomialModel_init (- 2)) (EuropeanOption_init 100 100 1 (1/20) (1/5) Call)
     = Inl LengthError"
  using no_configuration_validation[of "- 2" "EuropeanOption_init 100 100 1 (1/20) (1/5) Call"]
  by simp

text \<open>
  A non-positive count is not rejected at construction: pricers with the counts \<open>0\<close> and
  \<open>-3\<close> are produced.
\<close>

theorem no_configuration_validation_counterexample:
  "MonteCarloModel_init 0 = \<lparr>mc_N = 0\<rparr> \<and> BinomialModel_init (- 3) = \<lparr>bm_N = - 3\<rparr>"
  by (simp add: MonteCarloModel_init_def BinomialModel_init_def)

section \<open>Monotonicity\<close>

subsection \<open>In the spot price\<close>

lemma spec_payoff_call_mono: "x \<le> y \<Longrightarrow> spec_payoff Call K x \<le> spec_payoff Call K y"
  by (simp add: spec_payoff_def)

lemma spec_payoff_put_antimono: "x \<le> y \<Longrightarrow> spec_payoff Put K y \<le> spec_payoff Put K x"
  by (simp add: spec_payoff_def)

lemma crr_node_price_mono:
  assumes "s \<le> s'"
  shows "s * crr_u opt n ^ a * crr_d opt n ^ b \<le> s' * crr_u opt n ^ a * crr_d opt n ^ b"
proof -
  have "0 \<le> crr_u opt n ^ a * crr_d opt n ^ b"
    by (simp add: crr_u_def crr_d_def)
  then show ?thesis
    using assms by (simp add: mult_right_mono mult.assoc)
qed

lemma crr_price_spot_call:
  assumes "opt_type opt = Call" and "opt_S opt \<le> s'"
    and "0 \<le> crr_p opt n" and "crr_p opt n \<le> 1"
  shows "crr_price opt n \<le> crr_price (opt\<lparr>opt_S := s'\<rparr>) n"
proof -
  have par: "crr_p (opt\<lparr>opt_S := s'\<rparr>) n = crr_p opt n"
    "crr_discount (opt\<lparr>opt_S := s'\<rparr>) n = crr_discount opt n"
    by (simp_all add: crr_p_def crr_discount_def crr_u_def crr_d_def crr_dt_def)
  have tv: "crr_terminal_value opt n i \<le> crr_terminal_value (opt\<lparr>opt_S := s'\<rparr>) n i" for i
    using crr_node_price_mono[OF assms(2), of opt n "n - i" i] assms(1)
    by (simp add: crr_terminal_value_def crr_u_def crr_d_def crr_dt_def spec_payoff_call_mono)
  show ?thesis
    unfolding crr_price_lattice_value par
    by (rule lattice_value_mono) (simp_all add: crr_discount_def assms tv)
qed

lemma crr_price_spot_put:
  assumes "opt_type opt = Put" and "opt_S opt \<le> s'"
    and "0 \<le> crr_p opt n" and "crr_p opt n \<le> 1"
  shows "crr_price (opt\<lparr>opt_S := s'\<rparr>) n \<le> crr_price opt n"
proof -
  have par: "crr_p (opt\<lparr>opt_S := s'\<rparr>) n = crr_p opt n"
    "crr_discount (opt\<lparr>opt_S := s'\<rparr>) n = crr_discount opt n"
    by (simp_all add: crr_p_def crr_discount_def crr_u_def crr_d_def crr_dt_def)
  have tv: "crr_terminal_value (opt\<lparr>opt_S := s'\<rparr>) n i \<le> crr_terminal_value opt n i" for i
    using crr_node_price_mono[OF assms(2), of opt n "n - i" i] assms(1)
    by (simp add: crr_terminal_value_def crr_u_def crr_d_def crr_dt_def spec_payoff_put_antimono)
  show ?thesis
    unfolding crr_price_lattice_value par
    by (rule lattice_value_mono) (simp_all add: crr_discount_def assms tv)
qed

lemma spec_terminal_price_spot:
  "opt_S opt \<le> s' \<Longrightarrow> spec_terminal_price opt z \<le> spec_terminal_price (opt\<lparr>opt_S := s'\<rparr>) z"
  by (simp add: spec_terminal_price_def mult_right_mono)

lemma spec_mc_estimate_spot_call:
  assumes "opt_type opt = Call" and "opt_S opt \<le> s'"
  shows "spec_mc_estimate opt draw n \<le> spec_mc_estimate (opt\<lparr>opt_S := s'\<rparr>) draw n"
proof -
  have "(\<Sum>i<n. spec_payoff Call (opt_K opt) (spec_terminal_price opt (draw i)))
      \<le> (\<Sum>i<n. spec_payoff Call (opt_K opt) (spec_terminal_price (opt\<lparr>opt_S := s'\<rparr>) (draw i)))"
    by (intro sum_mono spec_payoff_call_mono spec_terminal_price_spot assms(2))
  then show ?thesis
    by (simp add: spec_mc_estimate_def assms(1) divide_right_mono)
qed

lemma spec_mc_estimate_spot_put:
  assumes "opt_type opt = Put" and "opt_S opt \<le> s'"
  shows "spec_mc_estimate (opt\<lparr>opt_S := s'\<rparr>) draw n \<le> spec_mc_estimate opt draw n"
proof -
  have "(\<Sum>i<n. spec_payoff Put (opt_K opt) (spec_terminal_price (opt\<lparr>opt_S := s'\<rparr>) (draw i)))
      \<le> (\<Sum>i<n. spec_payoff Put (opt_K opt) (spec_terminal_price opt (draw i)))"
    by (intro sum_mono spec_payoff_put_antimono spec_terminal_price_spot assms(2))
  then show ?thesis
    by (simp add: spec_mc_estimate_def assms(1) divide_right_mono)
qed

lemma crr_p_in_range_example:
  "0 \<le> crr_p (EuropeanOption_init 100 100 1 0 1 Call) 1 \<and>
   crr_p (EuropeanOption_init 100 100 1 0 1 Call) 1 \<le> 1"
proof -
  have e: "1 < exp (1::real)" by simp
  then have d: "1 / exp (1::real) < 1" by simp
  have h: "1 / exp (1::real) < exp 1" using e d by linarith
  have "0 \<le> (1 - 1 / exp 1) / (exp 1 - 1 / exp (1::real))"
    using d h by (intro divide_nonneg_nonneg) (simp_all only: diff_ge_0_iff_ge less_imp_le)
  moreover have "(1 - 1 / exp 1) / (exp 1 - 1 / exp (1::real)) \<le> 1"
    using h e by (simp add: divide_le_eq)
  ultimately show ?thesis
    by (simp add: crr_p_def crr_u_def crr_d_def crr_dt_def EuropeanOption_init_def)
qed

subsection \<open>In the volatility\<close>

text \<open>
  A larger volatility spreads the two successors of a node around the same mean; the
  value of a node is a convex function of its spot price, so every backward step
  preserves the order of the values.
\<close>

lemma convex_fnD:
  "convex_fn f \<Longrightarrow> 0 \<le> t \<Longrightarrow> t \<le> 1 \<Longrightarrow> f (t * x + (1 - t) * y) \<le> t * f x + (1 - t) * f y"
  by (simp add: convex_fn_def)

lemma convex_fn_spec_payoff: "convex_fn (spec_payoff ty K)"
  unfolding convex_fn_def
proof (intro allI impI)
  fix x y t :: real
  assume t: "0 \<le> t" "t \<le> 1"
  have c: "t * a + (1 - t) * b \<le> t * max a 0 + (1 - t) * max b 0" for a b :: real
    using t by (intro add_mono mult_left_mono) simp_all
  have z: "0 \<le> t * max a 0 + (1 - t) * max b 0" for a b :: real
    using t by (intro add_nonneg_nonneg mult_nonneg_nonneg) simp_all
  show "spec_payoff ty K (t * x + (1 - t) * y)
      \<le> t * spec_payoff ty K x + (1 - t) * spec_payoff ty K y"
  proof (cases ty)
    case Call
    have "t * x + (1 - t) * y - K = t * (x - K) + (1 - t) * (y - K)"
      by (simp add: algebra_simps)
    then show ?thesis
      using c[of "x - K" "y - K"] z[of "x - K" "y - K"] by (simp add: Call spec_payoff_def)
  next
    case Put
    have "K - (t * x + (1 - t) * y) = t * (K - x) + (1 - t) * (K - y)"
      by (simp add: algebra_simps)
    then show ?thesis
      using c[of "K - x" "K - y"] z[of "K - x" "K - y"] by (simp add: Put spec_payoff_def)
  qed
qed

lemma lattice_value_spot_value:
  "k + i \<le> n \<Longrightarrow>
     lattice_value (\<lambda>i. f (S * u ^ (n - i) * d ^ i)) discount p k i
       = spot_value f discount p u d k (S * u ^ (n - k - i) * d ^ i)"
proof (induction k arbitrary: i)
  case 0
  then show ?case by simp
next
  case (Suc k)
  have a: "k + i \<le> n" and b: "k + (i + 1) \<le> n"
    using Suc.prems by simp_all
  have e1: "S * u ^ (n - Suc k - i) * d ^ i * u = S * u ^ (n - k - i) * d ^ i"
  proof -
    have "n - k - i = Suc (n - Suc k - i)" using Suc.prems by simp
    then show ?thesis by simp
  qed
  have e2: "S * u ^ (n - Suc k - i) * d ^ i * d = S * u ^ (n - k - (i + 1)) * d ^ (i + 1)"
    by simp
  show ?case
    by (simp only: lattice_value.simps spot_value.simps Suc.IH[OF a] Suc.IH[OF b] e1 e2)
qed

lemma convex_fn_spot_value:
  assumes "convex_fn f" and "0 \<le> discount" and "0 \<le> p" and "p \<le> 1"
  shows "convex_fn (spot_value f discount p u d k)"
proof (induction k)
  case 0
  have "spot_value f discount p u d 0 = f" by (rule ext) simp
  then show ?case using assms(1) by simp
next
  case (Suc k)
  let ?g = "spot_value f discount p u d k"
  show ?case
    unfolding convex_fn_def
  proof (intro allI impI)
    fix x y t :: real
    assume t: "0 \<le> t" "t \<le> 1"
    have gu: "?g ((t * x + (1 - t) * y) * u) \<le> t * ?g (x * u) + (1 - t) * ?g (y * u)"
      using convex_fnD[OF Suc t, of "x * u" "y * u"] by (simp add: algebra_simps)
    have gd: "?g ((t * x + (1 - t) * y) * d) \<le> t * ?g (x * d) + (1 - t) * ?g (y * d)"
      using convex_fnD[OF Suc t, of "x * d" "y * d"] by (simp add: algebra_simps)
    have "p * ?g ((t * x + (1 - t) * y) * u) + (1 - p) * ?g ((t * x + (1 - t) * y) * d)
        \<le> p * (t * ?g (x * u) + (1 - t) * ?g (y * u)) + (1 - p) * (t * ?g (x * d) + (1 - t) * ?g (y * d))"
      using assms(3,4) gu gd by (intro add_mono mult_left_mono) simp_all
    then have "discount * (p * ?g ((t * x + (1 - t) * y) * u) + (1 - p) * ?g ((t * x + (1 - t) * y) * d))
        \<le> discount * (p * (t * ?g (x * u) + (1 - t) * ?g (y * u))
                       + (1 - p) * (t * ?g (x * d) + (1 - t) * ?g (y * d)))"
      using assms(2) by (rule mult_left_mono)
    then show "spot_value f discount p u d (Suc k) (t * x + (1 - t) * y)
        \<le> t * spot_value f discount p u d (Suc k) x + (1 - t) * spot_value f discount p u d (Suc k) y"
      by (simp add: algebra_simps)
  qed
qed

lemma spread_step:
  fixes u d u' d' p s :: real
  assumes g: "convex_fn g"
    and "d' \<le> d" and "d \<le> u" and "u \<le> u'" and "d' < u'" and "0 \<le> p" and "p \<le> 1"
  defines "p' \<equiv> (p * u + (1 - p) * d - d') / (u' - d')"
  shows "p * g (s * u) + (1 - p) * g (s * d) \<le> p' * g (s * u') + (1 - p') * g (s * d')"
proof -
  define l where "l = (u - d') / (u' - d')"
  define m where "m = (d - d') / (u' - d')"
  have pos: "0 < u' - d'" using assms by simp
  have l: "0 \<le> l" "l \<le> 1" and m: "0 \<le> m" "m \<le> 1"
    using assms pos by (simp_all add: l_def m_def)
  have su: "s * u = l * (s * u') + (1 - l) * (s * d')"
  proof -
    have "l * (u' - d') = u - d'" using pos by (simp add: l_def)
    then have "u = l * u' + (1 - l) * d'" by (simp add: algebra_simps)
    then have "s * u = s * (l * u' + (1 - l) * d')" by simp
    then show ?thesis by (simp add: algebra_simps)
  qed
  have sd: "s * d = m * (s * u') + (1 - m) * (s * d')"
  proof -
    have "m * (u' - d') = d - d'" using pos by (simp add: m_def)
    then have "d = m * u' + (1 - m) * d'" by (simp add: algebra_simps)
    then have "s * d = s * (m * u' + (1 - m) * d')" by simp
    then show ?thesis by (simp add: algebra_simps)
  qed
  have "p * l + (1 - p) * m = (p * (u - d') + (1 - p) * (d - d')) / (u' - d')"
    by (simp add: l_def m_def add_divide_distrib)
  also have "p * (u - d') + (1 - p) * (d - d') = p * u + (1 - p) * d - d'"
    by (simp add: algebra_simps)
  finally have p': "p' = p * l + (1 - p) * m"
    by (simp add: p'_def)
  have gu: "g (s * u) \<le> l * g (s * u') + (1 - l) * g (s * d')"
    using convex_fnD[OF g l, of "s * u'" "s * d'"] by (simp only: su[symmetric])
  have gd: "g (s * d) \<le> m * g (s * u') + (1 - m) * g (s * d')"
    using convex_fnD[OF g m, of "s * u'" "s * d'"] by (simp only: sd[symmetric])
  have "p * g (s * u) + (1 - p) * g (s * d)
      \<le> p * (l * g (s * u') + (1 - l) * g (s * d')) + (1 - p) * (m * g (s * u') + (1 - m) * g (s * d'))"
    using assms(6,7) gu gd by (intro add_mono mult_left_mono) simp_all
  also have "\<dots> = p' * g (s * u') + (1 - p') * g (s * d')"
    by (simp add: p' algebra_simps)
  finally show ?thesis .
qed

lemma spread_p_range:
  fixes u d u' d' p :: real
  assumes "d' \<le> d" and "d \<le> u" and "u \<le> u'" and "d' < u'" and "0 \<le> p" and "p \<le> 1"
  defines "p' \<equiv> (p * u + (1 - p) * d - d') / (u' - d')"
  shows "0 \<le> p' \<and> p' \<le> 1"
proof -
  have pos: "0 < u' - d'" using assms by simp
  have "d \<le> p * u + (1 - p) * d"
  proof -
    have "0 \<le> p * (u - d)" using assms by simp
    then show ?thesis by (simp add: algebra_simps)
  qed
  moreover have "p * u + (1 - p) * d \<le> u"
  proof -
    have "0 \<le> (1 - p) * (u - d)" using assms by simp
    then show ?thesis by (simp add: algebra_simps)
  qed
  ultimately show ?thesis
    using assms pos by (simp add: p'_def)
qed

lemma spot_value_spread:
  fixes u d u' d' p :: real
  assumes f: "convex_fn f" and disc: "0 \<le> discount"
    and "d' \<le> d" and "d \<le> u" and "u \<le> u'" and "d' < u'" and "0 \<le> p" and "p \<le> 1"
  defines "p' \<equiv> (p * u + (1 - p) * d - d') / (u' - d')"
  shows "spot_value f discount p u d k s \<le> spot_value f discount p' u' d' k s"
proof (induction k arbitrary: s)
  case 0
  then show ?case by simp
next
  case (Suc k)
  let ?g = "spot_value f discount p u d k"
  let ?h = "spot_value f discount p' u' d' k"
  have pr: "0 \<le> p'" "p' \<le> 1"
    using spread_p_range[OF assms(3-8)] by (simp_all add: p'_def)
  have h: "convex_fn ?h"
    by (rule convex_fn_spot_value[OF f disc pr])
  have "p * ?g (s * u) + (1 - p) * ?g (s * d) \<le> p * ?h (s * u) + (1 - p) * ?h (s * d)"
    using assms(7,8) Suc.IH[of "s * u"] Suc.IH[of "s * d"]
    by (intro add_mono mult_left_mono) simp_all
  also have "\<dots> \<le> p' * ?h (s * u') + (1 - p') * ?h (s * d')"
    by (rule spread_step[OF h assms(3-8), of s, folded p'_def])
  finally show ?case
    using disc by (simp add: mult_left_mono)
qed

lemma crr_price_spot_value:
  "crr_price opt n =
     spot_value (spec_payoff (opt_type opt) (opt_K opt)) (crr_discount opt n) (crr_p opt n)
       (crr_u opt n) (crr_d opt n) n (opt_S opt)"
proof -
  have tv: "crr_terminal_value opt n
      = (\<lambda>i. spec_payoff (opt_type opt) (opt_K opt) (opt_S opt * crr_u opt n ^ (n - i) * crr_d opt n ^ i))"
    by (rule ext) (simp add: crr_terminal_value_def)
  show ?thesis
    unfolding crr_price_lattice_value tv
    by (subst lattice_value_spot_value) simp_all
qed

lemma crr_price_sigma_mono:
  assumes "0 < opt_T opt" and "0 < opt_sigma opt" and "opt_sigma opt \<le> v'" and "0 < n"
    and "0 \<le> crr_p opt n" and "crr_p opt n \<le> 1"
  shows "crr_price opt n \<le> crr_price (opt\<lparr>opt_sigma := v'\<rparr>) n"
proof -
  let ?opt' = "opt\<lparr>opt_sigma := v'\<rparr>"
  let ?q = "sqrt (crr_dt opt n)"
  have q: "0 < ?q"
    using assms(1,4) by (simp add: crr_dt_def)
  have dt': "crr_dt ?opt' n = crr_dt opt n"
    by (simp add: crr_dt_def)
  have u: "crr_u opt n = exp (opt_sigma opt * ?q)" and u': "crr_u ?opt' n = exp (v' * ?q)"
    by (simp_all add: crr_u_def dt')
  have u1: "1 < crr_u opt n"
    using assms(2) q by (simp add: u)
  have uu: "crr_u opt n \<le> crr_u ?opt' n"
    using assms(3) q by (simp add: u u')
  have u1': "1 < crr_u ?opt' n"
    using u1 uu by linarith
  have d1: "crr_d opt n < 1" and d1': "crr_d ?opt' n < 1"
    using u1 u1' by (simp_all add: crr_d_def)
  have dd: "crr_d ?opt' n \<le> crr_d opt n"
    using uu u1 by (simp add: crr_d_def frac_le)
  have du: "crr_d opt n \<le> crr_u opt n" and du': "crr_d ?opt' n < crr_u ?opt' n"
    using u1 d1 u1' d1' by linarith+
  have mean: "crr_p opt n * crr_u opt n + (1 - crr_p opt n) * crr_d opt n = exp (opt_r opt * crr_dt opt n)"
  proof -
    have nz: "crr_u opt n - crr_d opt n \<noteq> 0"
      using u1 d1 by linarith
    have "crr_p opt n * (crr_u opt n - crr_d opt n) = exp (opt_r opt * crr_dt opt n) - crr_d opt n"
      using nz by (simp add: crr_p_def)
    then show ?thesis by (simp add: algebra_simps)
  qed
  have p': "crr_p ?opt' n
      = (crr_p opt n * crr_u opt n + (1 - crr_p opt n) * crr_d opt n - crr_d ?opt' n)
        / (crr_u ?opt' n - crr_d ?opt' n)"
    unfolding mean by (simp add: crr_p_def dt')
  have disc: "crr_discount ?opt' n = crr_discount opt n"
    by (simp add: crr_discount_def dt')
  have "spot_value (spec_payoff (opt_type opt) (opt_K opt)) (crr_discount opt n) (crr_p opt n)
          (crr_u opt n) (crr_d opt n) n (opt_S opt)
      \<le> spot_value (spec_payoff (opt_type opt) (opt_K opt)) (crr_discount opt n)
          ((crr_p opt n * crr_u opt n + (1 - crr_p opt n) * crr_d opt n - crr_d ?opt' n)
            / (crr_u ?opt' n - crr_d ?opt' n))
          (crr_u ?opt' n) (crr_d ?opt' n) n (opt_S opt)"
    by (rule spot_value_spread[OF convex_fn_spec_payoff _ dd du uu du' assms(5,6)])
       (simp add: crr_discount_def)
  then show ?thesis
    unfolding crr_price_spot_value disc p'[symmetric] by simp
qed

text \<open>
  The simulation pricer is not monotone in the volatility, not even on the same draws:
  with one draw \<open>Z = 0\<close> the terminal price \<open>S \<cdot> exp(-0.5 \<sigma>\<^sup>2 T)\<close> falls as \<open>\<sigma>\<close> grows.
\<close>

lemma simulation_call_decreasing_in_sigma:
  "MonteCarloModel_price (MonteCarloModel_init 1) (\<lambda>i. 0) (EuropeanOption_init 4 1 1 0 3 Call)
     < MonteCarloModel_price (MonteCarloModel_init 1) (\<lambda>i. 0) (EuropeanOption_init 4 1 1 0 1 Call)"
proof -
  have a: "4 * exp (- (9 / 2) :: real) \<le> 1"
  proof -
    have "1 + 9 / 2 \<le> exp (9 / 2 :: real)" by (rule exp_ge_add_one_self)
    then have "4 \<le> exp (9 / 2 :: real)" by simp
    then show ?thesis by (simp add: exp_minus field_simps)
  qed
  have b: "1 < 4 * exp (- (1 / 2) :: real)"
  proof -
    have "1 + (- (1 / 2)) \<le> exp (- (1 / 2) :: real)" by (rule exp_ge_add_one_self)
    then show ?thesis by simp
  qed
  show ?thesis
    using a b
    by (simp add: MonteCarloModel_price_spec spec_mc_estimate_def spec_terminal_price_def
        spec_payoff_def EuropeanOption_init_def)
qed

text \<open>The same holds for a Put, with a positive draw.\<close>

lemma simulation_put_decreasing_in_sigma:
  "MonteCarloModel_price (MonteCarloModel_init 1) (\<lambda>i. 3) (EuropeanOption_init 1 2 1 0 1 Put)
     < MonteCarloModel_price (MonteCarloModel_init 1) (\<lambda>i. 3) (EuropeanOption_init 1 2 1 0 (1 / 10) Put)"
proof -
  have a: "2 \<le> exp (5 / 2 :: real)"
  proof -
    have "1 + 5 / 2 \<le> exp (5 / 2 :: real)" by (rule exp_ge_add_one_self)
    then show ?thesis by simp
  qed
  have b: "exp (59 / 200 :: real) < 2"
  proof -
    have "exp (59 / 200 :: real) \<le> 1 + 59 / 200 + (59 / 200)\<^sup>2"
      by (rule exp_bound) simp_all
    also have "\<dots> < 2" by (simp add: power2_eq_square)
    finally show ?thesis .
  qed
  show ?thesis
    using a b
    by (simp add: MonteCarloModel_price_spec spec_mc_estimate_def spec_terminal_price_def
        spec_payoff_def EuropeanOption_init_def power2_eq_square)
qed

subsection \<open>The simulation pricer on different draws\<close>

text \<open>
  Two calls of the simulation pricer draw afresh, and on different draws a larger spot
  price can give a smaller Call price and a larger Put price.
\<close>

lemma simulation_call_needs_same_draws:
  "MonteCarloModel_price (MonteCarloModel_init 1) (\<lambda>i. - 4) (EuropeanOption_init 5 1 1 0 1 Call)
     < MonteCarloModel_price (MonteCarloModel_init 1) (\<lambda>i. 0) (EuropeanOption_init 4 1 1 0 1 Call)"
proof -
  have a: "5 * exp (- (9 / 2) :: real) \<le> 1"
  proof -
    have "1 + 9 / 2 \<le> exp (9 / 2 :: real)" by (rule exp_ge_add_one_self)
    then have "5 \<le> exp (9 / 2 :: real)" by simp
    then show ?thesis by (simp add: exp_minus field_simps)
  qed
  have b: "1 < 4 * exp (- (1 / 2) :: real)"
  proof -
    have "1 + (- (1 / 2)) \<le> exp (- (1 / 2) :: real)" by (rule exp_ge_add_one_self)
    then show ?thesis by simp
  qed
  show ?thesis
    using a b
    by (simp add: MonteCarloModel_price_spec spec_mc_estimate_def spec_terminal_price_def
        spec_payoff_def EuropeanOption_init_def)
qed

lemma simulation_put_needs_same_draws:
  "MonteCarloModel_price (MonteCarloModel_init 1) (\<lambda>i. 0) (EuropeanOption_init 4 1 1 0 1 Put)
     < MonteCarloModel_price (MonteCarloModel_init 1) (\<lambda>i. - 4) (EuropeanOption_init 5 1 1 0 1 Put)"
proof -
  have a: "5 * exp (- (9 / 2) :: real) < 1"
  proof -
    have "1 + 9 / 2 \<le> exp (9 / 2 :: real)" by (rule exp_ge_add_one_self)
    then have "5 < exp (9 / 2 :: real)" by simp
    then show ?thesis by (simp add: exp_minus field_simps)
  qed
  have b: "1 < 4 * exp (- (1 / 2) :: real)"
  proof -
    have "1 + (- (1 / 2)) \<le> exp (- (1 / 2) :: real)" by (rule exp_ge_add_one_self)
    then show ?thesis by simp
  qed
  show ?thesis
    using a b
    by (simp add: MonteCarloModel_price_spec spec_mc_estimate_def spec_terminal_price_def
        spec_payoff_def EuropeanOption_init_def)
qed

subsection \<open>The three pricers\<close>

lemma lattice_monotone:
  assumes "0 < opt_T opt" and "0 < opt_sigma opt"
    and "opt_S opt \<le> s'" and "opt_sigma opt \<le> v'"
    and "0 < n" and "0 \<le> crr_p opt n" and "crr_p opt n \<le> 1"
  shows "crr_price opt n \<le> crr_price (opt\<lparr>opt_sigma := v'\<rparr>) n \<and>
         (case opt_type opt of
            Call \<Rightarrow> crr_price opt n \<le> crr_price (opt\<lparr>opt_S := s'\<rparr>) n
          | Put \<Rightarrow> crr_price (opt\<lparr>opt_S := s'\<rparr>) n \<le> crr_price opt n)"
proof (cases "opt_type opt")
  case Call
  then show ?thesis
    using crr_price_sigma_mono[OF assms(1,2,4,5,6,7)] crr_price_spot_call[OF Call assms(3,6,7)]
    by simp
next
  case Put
  then show ?thesis
    using crr_price_sigma_mono[OF assms(1,2,4,5,6,7)] crr_price_spot_put[OF Put assms(3,6,7)]
    by simp
qed

lemma simulation_spot_mono:
  assumes "opt_S opt \<le> s'" and "0 < M"
  shows "case opt_type opt of
           Call \<Rightarrow> MonteCarloModel_price (MonteCarloModel_init M) draw opt
                     \<le> MonteCarloModel_price (MonteCarloModel_init M) draw (opt\<lparr>opt_S := s'\<rparr>)
         | Put \<Rightarrow> MonteCarloModel_price (MonteCarloModel_init M) draw (opt\<lparr>opt_S := s'\<rparr>)
                     \<le> MonteCarloModel_price (MonteCarloModel_init M) draw opt"
proof (cases "opt_type opt")
  case Call
  then show ?thesis
    using assms(2) spec_mc_estimate_spot_call[OF Call assms(1)]
    by (simp add: MonteCarloModel_price_spec)
next
  case Put
  then show ?thesis
    using assms(2) spec_mc_estimate_spot_put[OF Put assms(1)]
    by (simp add: MonteCarloModel_price_spec)
qed

text \<open>
  C8. In exact real arithmetic, for contracts with \<open>S, K, T, \<sigma> > 0\<close> that differ only in
  \<open>S\<close> or only in \<open>\<sigma>\<close>. The analytic pricer's Call price is non-decreasing in \<open>S\<close> and in
  \<open>\<sigma>\<close>, its Put price non-increasing in \<open>S\<close> and non-decreasing in \<open>\<sigma>\<close>. The lattice
  pricer's prices are so too when \<open>0 < N < INT_MAX\<close> and the risk-neutral probability
  lies in \<open>[0, 1]\<close>. The simulation pricer's Call price is non-decreasing and its Put
  price non-increasing in \<open>S\<close> for a sample count \<open>M > 0\<close> when both calls see the same draws.
\<close>

theorem pricers_monotone:
  assumes "0 < opt_S opt" and "0 < opt_K opt" and "0 < opt_T opt" and "0 < opt_sigma opt"
    and "opt_S opt \<le> s'" and "opt_sigma opt \<le> v'"
  shows "BlackScholesModel_price opt \<le> BlackScholesModel_price (opt\<lparr>opt_sigma := v'\<rparr>) \<and>
         (case opt_type opt of
            Call \<Rightarrow> BlackScholesModel_price opt \<le> BlackScholesModel_price (opt\<lparr>opt_S := s'\<rparr>)
          | Put \<Rightarrow> BlackScholesModel_price (opt\<lparr>opt_S := s'\<rparr>) \<le> BlackScholesModel_price opt) \<and>
         (0 < N \<and> N < INT_MAX \<and> 0 \<le> crr_p opt (nat N) \<and> crr_p opt (nat N) \<le> 1 \<longrightarrow>
            BinomialModel_price (BinomialModel_init N) opt = Inr (crr_price opt (nat N)) \<and>
            BinomialModel_price (BinomialModel_init N) (opt\<lparr>opt_sigma := v'\<rparr>)
              = Inr (crr_price (opt\<lparr>opt_sigma := v'\<rparr>) (nat N)) \<and>
            BinomialModel_price (BinomialModel_init N) (opt\<lparr>opt_S := s'\<rparr>)
              = Inr (crr_price (opt\<lparr>opt_S := s'\<rparr>) (nat N)) \<and>
            crr_price opt (nat N) \<le> crr_price (opt\<lparr>opt_sigma := v'\<rparr>) (nat N) \<and>
            (case opt_type opt of
               Call \<Rightarrow> crr_price opt (nat N) \<le> crr_price (opt\<lparr>opt_S := s'\<rparr>) (nat N)
             | Put \<Rightarrow> crr_price (opt\<lparr>opt_S := s'\<rparr>) (nat N) \<le> crr_price opt (nat N))) \<and>
         (0 < M \<longrightarrow>
            (case opt_type opt of
               Call \<Rightarrow> MonteCarloModel_price (MonteCarloModel_init M) draw opt
                         \<le> MonteCarloModel_price (MonteCarloModel_init M) draw (opt\<lparr>opt_S := s'\<rparr>)
             | Put \<Rightarrow> MonteCarloModel_price (MonteCarloModel_init M) draw (opt\<lparr>opt_S := s'\<rparr>)
                         \<le> MonteCarloModel_price (MonteCarloModel_init M) draw opt))"
proof (intro conjI impI)
  show "BlackScholesModel_price opt \<le> BlackScholesModel_price (opt\<lparr>opt_sigma := v'\<rparr>)"
    by (rule BlackScholes_sigma_mono[OF assms(1-4,6)])
  show "case opt_type opt of
          Call \<Rightarrow> BlackScholesModel_price opt \<le> BlackScholesModel_price (opt\<lparr>opt_S := s'\<rparr>)
        | Put \<Rightarrow> BlackScholesModel_price (opt\<lparr>opt_S := s'\<rparr>) \<le> BlackScholesModel_price opt"
    by (rule BlackScholes_spot_mono[OF assms(1-5)])
next
  assume h: "0 < N \<and> N < INT_MAX \<and> 0 \<le> crr_p opt (nat N) \<and> crr_p opt (nat N) \<le> 1"
  then have n: "0 < nat N" by simp
  show "BinomialModel_price (BinomialModel_init N) opt = Inr (crr_price opt (nat N))"
    "BinomialModel_price (BinomialModel_init N) (opt\<lparr>opt_sigma := v'\<rparr>)
       = Inr (crr_price (opt\<lparr>opt_sigma := v'\<rparr>) (nat N))"
    "BinomialModel_price (BinomialModel_init N) (opt\<lparr>opt_S := s'\<rparr>)
       = Inr (crr_price (opt\<lparr>opt_S := s'\<rparr>) (nat N))"
    using h by (simp_all add: BinomialModel_price_value)
  from lattice_monotone[OF assms(3,4,5,6) n] h
  show "crr_price opt (nat N) \<le> crr_price (opt\<lparr>opt_sigma := v'\<rparr>) (nat N)"
    "case opt_type opt of
       Call \<Rightarrow> crr_price opt (nat N) \<le> crr_price (opt\<lparr>opt_S := s'\<rparr>) (nat N)
     | Put \<Rightarrow> crr_price (opt\<lparr>opt_S := s'\<rparr>) (nat N) \<le> crr_price opt (nat N)"
    by simp_all
next
  assume "0 < M"
  with assms(5) show "case opt_type opt of
       Call \<Rightarrow> MonteCarloModel_price (MonteCarloModel_init M) draw opt
                 \<le> MonteCarloModel_price (MonteCarloModel_init M) draw (opt\<lparr>opt_S := s'\<rparr>)
     | Put \<Rightarrow> MonteCarloModel_price (MonteCarloModel_init M) draw (opt\<lparr>opt_S := s'\<rparr>)
                 \<le> MonteCarloModel_price (MonteCarloModel_init M) draw opt"
    by (rule simulation_spot_mono)
qed

theorem pricers_monotone_witness:
  "BlackScholesModel_price (EuropeanOption_init 100 100 1 0 1 Call)
     \<le> BlackScholesModel_price (EuropeanOption_init 100 100 1 0 2 Call) \<and>
   BlackScholesModel_price (EuropeanOption_init 100 100 1 0 1 Call)
     \<le> BlackScholesModel_price (EuropeanOption_init 120 100 1 0 1 Call) \<and>
   BinomialModel_price (BinomialModel_init 1) (EuropeanOption_init 100 100 1 0 1 Call)
     = Inr (crr_price (EuropeanOption_init 100 100 1 0 1 Call) 1) \<and>
   BinomialModel_price (BinomialModel_init 1) (EuropeanOption_init 100 100 1 0 2 Call)
     = Inr (crr_price (EuropeanOption_init 100 100 1 0 2 Call) 1) \<and>
   BinomialModel_price (BinomialModel_init 1) (EuropeanOption_init 120 100 1 0 1 Call)
     = Inr (crr_price (EuropeanOption_init 120 100 1 0 1 Call) 1) \<and>
   crr_price (EuropeanOption_init 100 100 1 0 1 Call) 1
     \<le> crr_price (EuropeanOption_init 100 100 1 0 2 Call) 1 \<and>
   crr_price (EuropeanOption_init 100 100 1 0 1 Call) 1
     \<le> crr_price (EuropeanOption_init 120 100 1 0 1 Call) 1 \<and>
   MonteCarloModel_price (MonteCarloModel_init 2) (\<lambda>i. real i) (EuropeanOption_init 100 100 1 0 1 Call)
     \<le> MonteCarloModel_price (MonteCarloModel_init 2) (\<lambda>i. real i)
          (EuropeanOption_init 120 100 1 0 1 Call)"
  using pricers_monotone[of "EuropeanOption_init 100 100 1 0 1 Call" 120 2 1 2 "\<lambda>i. real i"]
    crr_p_in_range_example
  by (simp add: EuropeanOption_init_def INT_MAX_def)

subsection \<open>A lattice outside the arbitrage-free region\<close>

lemma put_price_spot_1:
  "BinomialModel_price (BinomialModel_init 1) (EuropeanOption_init 1 1 1 2 1 Put) =
     Inr (exp (- 2) * ((1 - crr_p (EuropeanOption_init 1 1 1 2 1 Put) 1) * (1 - 1 / exp 1)))"
proof -
  have "1 \<le> exp (1::real)" by simp
  moreover have "1 / exp (1::real) \<le> 1" by simp
  ultimately show ?thesis
    by (simp add: BinomialModel_price_one_step crr_terminal_value_def crr_discount_def
        crr_u_def crr_d_def crr_dt_def spec_payoff_def EuropeanOption_init_def max_def)
qed

lemma put_price_spot_2:
  "BinomialModel_price (BinomialModel_init 1) (EuropeanOption_init 2 1 1 2 1 Put) =
     Inr (exp (- 2) * ((1 - crr_p (EuropeanOption_init 2 1 1 2 1 Put) 1) * max (1 - 2 / exp 1) 0))"
proof -
  have "1 \<le> 2 * exp (1::real)"
    using exp_ge_add_one_self[of "1::real"] by simp
  then show ?thesis
    by (simp add: BinomialModel_price_one_step crr_terminal_value_def crr_discount_def
        crr_u_def crr_d_def crr_dt_def spec_payoff_def EuropeanOption_init_def)
qed

lemma crr_p_spot: "crr_p (EuropeanOption_init s k t r v ty) n = crr_p (EuropeanOption_init s' k t r v ty) n"
  by (simp add: crr_p_def crr_u_def crr_d_def crr_dt_def EuropeanOption_init_def)

lemma put_prices_example:
  "BinomialModel_price (BinomialModel_init 1) (EuropeanOption_init 1 1 1 2 1 Put) =
     Inr (exp (- 2) * ((1 - crr_p (EuropeanOption_init 1 1 1 2 1 Put) 1) * (1 - 1 / exp 1))) \<and>
   BinomialModel_price (BinomialModel_init 1) (EuropeanOption_init 2 1 1 2 1 Put) =
     Inr (exp (- 2) * ((1 - crr_p (EuropeanOption_init 1 1 1 2 1 Put) 1) * max (1 - 2 / exp 1) 0)) \<and>
   exp (- 2) * ((1 - crr_p (EuropeanOption_init 1 1 1 2 1 Put) 1) * (1 - 1 / exp 1))
     < exp (- 2) * ((1 - crr_p (EuropeanOption_init 1 1 1 2 1 Put) 1) * max (1 - 2 / exp 1) 0)"
proof -
  let ?p = "crr_p (EuropeanOption_init 1 1 1 2 1 Put) 1"
  have p: "1 - ?p < 0"
    using crr_p_example[of 1] by simp
  have e: "1 < exp (1::real)" by simp
  have "max (1 - 2 / exp 1) 0 < 1 - 1 / exp (1::real)"
    using e by (simp add: field_simps)
  then have "(1 - ?p) * (1 - 1 / exp 1) < (1 - ?p) * max (1 - 2 / exp 1) 0"
    using p by (simp add: mult_less_cancel_left)
  then have "exp (- 2) * ((1 - ?p) * (1 - 1 / exp 1))
      < exp (- 2) * ((1 - ?p) * max (1 - 2 / exp 1) 0)"
    by (simp add: mult_less_cancel_left)
  then show ?thesis
    using put_price_spot_1 put_price_spot_2 crr_p_spot[of 2 1 1 2 1 Put 1 1]
    by simp
qed

text \<open>
  Without the condition on \<open>p\<close> the lattice pricer is not monotone: with \<open>r = 2\<close>,
  \<open>\<sigma> = 1\<close>, \<open>T = 1\<close> and one step the probability \<open>p\<close> exceeds \<open>1\<close>, and the Put price at
  \<open>S = 2\<close> is above the Put price at \<open>S = 1\<close>.
\<close>

theorem lattice_put_increasing_counterexample:
  "BinomialModel_price (BinomialModel_init 1) (EuropeanOption_init 1 1 1 2 1 Put)
     = Inr (crr_price (EuropeanOption_init 1 1 1 2 1 Put) 1) \<and>
   BinomialModel_price (BinomialModel_init 1) (EuropeanOption_init 2 1 1 2 1 Put)
     = Inr (crr_price (EuropeanOption_init 2 1 1 2 1 Put) 1) \<and>
   crr_price (EuropeanOption_init 1 1 1 2 1 Put) 1 < crr_price (EuropeanOption_init 2 1 1 2 1 Put) 1"
proof -
  have v: "BinomialModel_price (BinomialModel_init 1) c = Inr (crr_price c 1)" for c
    using BinomialModel_price_value[of 1 c] by (simp add: INT_MAX_def)
  have "crr_price (EuropeanOption_init 1 1 1 2 1 Put) 1 < crr_price (EuropeanOption_init 2 1 1 2 1 Put) 1"
    using put_prices_example
    unfolding v[of "EuropeanOption_init 1 1 1 2 1 Put"] v[of "EuropeanOption_init 2 1 1 2 1 Put"]
    by simp
  then show ?thesis
    by (simp add: v)
qed

end
